theory Spec2Isabelle
  imports Main "HOL-Library.Char_ord" "HOL-Library.List_Lexorder" "HOL-Library.Sublist"
begin

section \<open>Strings\<close>

text \<open>
  Go strings are byte sequences; they are modelled as \<open>string\<close> (a list of 8-bit
  characters).  The functions of package \<open>strings\<close> that \<open>main.go\<close> calls are
  written out below.  The path separator is the slash throughout (a Unix host), so
  \<open>filepath.ToSlash\<close> is the identity.
\<close>

definition HasPrefix :: "string \<Rightarrow> string \<Rightarrow> bool" where
  "HasPrefix s pre = (take (length pre) s = pre)"

definition HasSuffix :: "string \<Rightarrow> string \<Rightarrow> bool" where
  "HasSuffix s suf = (length suf \<le> length s \<and> drop (length s - length suf) s = suf)"

definition TrimPrefix :: "string \<Rightarrow> string \<Rightarrow> string" where
  "TrimPrefix s pre = (if HasPrefix s pre then drop (length pre) s else s)"

definition TrimSuffix :: "string \<Rightarrow> string \<Rightarrow> string" where
  "TrimSuffix s suf = (if HasSuffix s suf then take (length s - length suf) s else s)"

fun Contains :: "string \<Rightarrow> string \<Rightarrow> bool" where
  "Contains [] sub = (sub = [])"
| "Contains (c # cs) sub = (HasPrefix (c # cs) sub \<or> Contains cs sub)"

text \<open>\<open>strings.Split(s, sep)\<close> for a separator of one byte: the result is never empty.\<close>

fun Split :: "string \<Rightarrow> char \<Rightarrow> string list" where
  "Split [] sep = [[]]"
| "Split (c # cs) sep =
     (if c = sep then [] # Split cs sep
      else (c # hd (Split cs sep)) # tl (Split cs sep))"

fun Join :: "string list \<Rightarrow> string \<Rightarrow> string" where
  "Join [] sep = []"
| "Join [x] sep = x"
| "Join (x # y # ys) sep = x @ sep @ Join (y # ys) sep"

definition ToSlash :: "string \<Rightarrow> string" where
  "ToSlash p = p"

text \<open>
  \<open>filepath.Base\<close>: the empty path gives \<open>"."\<close>; trailing slashes are dropped, then
  everything up to the last slash; a path made of slashes only gives \<open>"/"\<close>.
\<close>

definition Base :: "string \<Rightarrow> string" where
  "Base path =
     (if path = [] then ''.''
      else
        let p = rev (dropWhile (\<lambda>c. c = CHR ''/'') (rev path));
            q = rev (takeWhile (\<lambda>c. c \<noteq> CHR ''/'') (rev p))
        in if q = [] then ''/'' else q)"

section \<open>Glob matching: \<open>filepath.Match\<close>\<close>

text \<open>
  \<open>matchPattern\<close> delegates every wildcard test to the standard library's
  \<open>filepath.Match\<close>.  It is modelled here after the library's source (Unix build):
  \<open>scanChunk\<close>, \<open>matchChunk\<close>, \<open>getEsc\<close> and the main loop, reading runes with
  \<open>utf8.DecodeRuneInString\<close>.  The only error is \<open>ErrBadPattern\<close>; every error
  return of the library is \<open>return false, err\<close>, so a result is either an error or a
  boolean.
\<close>

datatype match_error = ErrBadPattern

definition RuneError :: nat where
  "RuneError = 65533"

definition DecodeRuneInString :: "string \<Rightarrow> nat \<times> nat" where
  "DecodeRuneInString s =
     (case map of_char s of
        [] \<Rightarrow> (RuneError, 0)
      | b0 # bs \<Rightarrow>
          if b0 < (128::nat) then (b0, 1)
          else if b0 < 194 \<or> 244 < b0 then (RuneError, 1)
          else
            let sz = (if b0 < 224 then 2 else if b0 < 240 then 3 else (4::nat));
                lo = (if b0 = 224 then 160 else if b0 = 240 then 144 else (128::nat));
                hi = (if b0 = 237 then 159 else if b0 = 244 then 143 else (191::nat))
            in if length s < sz then (RuneError, 1)
               else
                 let s1 = bs ! 0 in
                 if s1 < lo \<or> hi < s1 then (RuneError, 1)
                 else if sz = 2 then ((b0 mod 32) * 64 + s1 mod 64, 2)
                 else
                   let s2 = bs ! 1 in
                   if s2 < 128 \<or> 191 < s2 then (RuneError, 1)
                   else if sz = 3 then
                     ((b0 mod 16) * 4096 + (s1 mod 64) * 64 + s2 mod 64, 3)
                   else
                     let s3 = bs ! 2 in
                     if s3 < 128 \<or> 191 < s3 then (RuneError, 1)
                     else ((b0 mod 8) * 262144 + (s1 mod 64) * 4096
                             + (s2 mod 64) * 64 + s3 mod 64, 4))"

text \<open>
  \<open>getEsc\<close> reads one possibly escaped rune of a character class; it fails on an
  empty chunk, on \<open>-\<close> or \<open>]\<close>, on a trailing backslash, on an invalid encoding,
  and when nothing follows the rune.
\<close>

definition getEsc :: "string \<Rightarrow> match_error + (nat \<times> string)" where
  "getEsc chunk =
     (if chunk = [] \<or> hd chunk = CHR ''-'' \<or> hd chunk = CHR '']'' then Inl ErrBadPattern
      else
        let chunk1 = (if hd chunk = CHR 0x5C then tl chunk else chunk) in
        if chunk1 = [] then Inl ErrBadPattern
        else
          let (r, n) = DecodeRuneInString chunk1;
              nchunk = drop n chunk1
          in if (r = RuneError \<and> n = 1) \<or> nchunk = [] then Inl ErrBadPattern
             else Inr (r, nchunk))"

lemma DecodeRuneInString_pos:
  "s \<noteq> [] \<Longrightarrow> 0 < snd (DecodeRuneInString s)"
  by (cases s) (simp_all add: DecodeRuneInString_def Let_def)

lemma getEsc_shorter:
  assumes "getEsc chunk = Inr (r, nchunk)"
  shows "length nchunk < length chunk"
proof -
  from assms have ne: "chunk \<noteq> []"
    by (auto simp: getEsc_def)
  define chunk1 where "chunk1 = (if hd chunk = CHR 0x5C then tl chunk else chunk)"
  from assms have ne1: "chunk1 \<noteq> []"
    by (auto simp: getEsc_def chunk1_def Let_def split: if_splits)
  from assms have "nchunk = drop (snd (DecodeRuneInString chunk1)) chunk1"
    by (auto simp: getEsc_def chunk1_def Let_def split: if_splits prod.splits)
  with DecodeRuneInString_pos [OF ne1] ne1 have "length nchunk < length chunk1"
    by simp
  moreover have "length chunk1 \<le> length chunk"
    by (simp add: chunk1_def)
  ultimately show ?thesis by simp
qed

text \<open>
  The range loop of a character class: \<open>r\<close> is the rune under test, \<open>match\<close> the
  flag so far, \<open>nrange\<close> the number of ranges read.  It returns the flag and the chunk
  after the closing bracket.
\<close>

function classLoop :: "nat \<Rightarrow> string \<Rightarrow> bool \<Rightarrow> nat \<Rightarrow> match_error + (bool \<times> string)" where
  "classLoop r chunk match nrange =
     (if chunk \<noteq> [] \<and> hd chunk = CHR '']'' \<and> 0 < nrange then Inr (match, tl chunk)
      else
        case getEsc chunk of
          Inl e \<Rightarrow> Inl e
        | Inr (lo, chunk1) \<Rightarrow>
            if hd chunk1 = CHR ''-'' then
              (case getEsc (tl chunk1) of
                 Inl e \<Rightarrow> Inl e
               | Inr (hi, chunk2) \<Rightarrow>
                   classLoop r chunk2 (match \<or> (lo \<le> r \<and> r \<le> hi)) (Suc nrange))
            else classLoop r chunk1 (match \<or> (lo \<le> r \<and> r \<le> lo)) (Suc nrange))"
  by pat_completeness auto
termination
proof (relation "measure (\<lambda>(r, chunk, match, nrange). length chunk)")
  show "wf (measure (\<lambda>(r, chunk, match, nrange). length chunk))" by simp
next
  fix r chunk match nrange x2 lo chunk1 x2a hi chunk2
  assume a: "getEsc chunk = Inr x2" "(lo, chunk1) = x2"
    and b: "getEsc (tl chunk1) = Inr x2a" "(hi, chunk2) = x2a"
  from a have "length chunk1 < length chunk"
    using getEsc_shorter [of chunk lo chunk1] by simp
  moreover from b have "length chunk2 < length (tl chunk1)"
    using getEsc_shorter [of "tl chunk1" hi chunk2] by simp
  ultimately show "((r, chunk2, match \<or> lo \<le> r \<and> r \<le> hi, Suc nrange), r, chunk, match, nrange)
      \<in> measure (\<lambda>(r, chunk, match, nrange). length chunk)"
    by simp
next
  fix r chunk match nrange x2 lo chunk1
  assume a: "getEsc chunk = Inr x2" "(lo, chunk1) = x2"
  then have "length chunk1 < length chunk"
    using getEsc_shorter [of chunk lo chunk1] by simp
  then show "((r, chunk1, match \<or> lo \<le> r \<and> r \<le> lo, Suc nrange), r, chunk, match, nrange)
      \<in> measure (\<lambda>(r, chunk, match, nrange). length chunk)"
    by simp
qed

declare classLoop.simps [simp del]

lemma classLoop_shorter:
  "classLoop r chunk match nrange = Inr (b, rest) \<Longrightarrow> length rest < length chunk"
proof (induction r chunk match nrange rule: classLoop.induct)
  case (1 r chunk match nrange)
  show ?case
  proof (cases "chunk \<noteq> [] \<and> hd chunk = CHR '']'' \<and> 0 < nrange")
    case True
    then have "classLoop r chunk match nrange = Inr (match, tl chunk)"
      by (subst classLoop.simps) simp
    with "1.prems" True show ?thesis by (cases chunk) auto
  next
    case False
    note nf = False
    then have eq: "classLoop r chunk match nrange =
        (case getEsc chunk of
          Inl e \<Rightarrow> Inl e
        | Inr (lo, chunk1) \<Rightarrow>
            if hd chunk1 = CHR ''-'' then
              (case getEsc (tl chunk1) of
                 Inl e \<Rightarrow> Inl e
               | Inr (hi, chunk2) \<Rightarrow>
                   classLoop r chunk2 (match \<or> (lo \<le> r \<and> r \<le> hi)) (Suc nrange))
            else classLoop r chunk1 (match \<or> (lo \<le> r \<and> r \<le> lo)) (Suc nrange))"
      by (subst classLoop.simps) (simp only: if_False)
    show ?thesis
    proof (cases "getEsc chunk")
      case (Inl e)
      with eq "1.prems" show ?thesis by simp
    next
      case (Inr x)
      obtain lo chunk1 where x: "x = (lo, chunk1)" by (cases x)
      from Inr x getEsc_shorter [of chunk lo chunk1]
      have l1: "length chunk1 < length chunk"
        by simp
      show ?thesis
      proof (cases "hd chunk1 = CHR ''-''")
        case True
        note dash = True
        show ?thesis
        proof (cases "getEsc (tl chunk1)")
          case (Inl e)
          with eq \<open>getEsc chunk = Inr x\<close> x dash "1.prems" show ?thesis by simp
        next
          case (Inr y)
          obtain hi chunk2 where y: "y = (hi, chunk2)" by (cases y)
          from Inr y getEsc_shorter [of "tl chunk1" hi chunk2]
          have l2: "length chunk2 < length (tl chunk1)"
            by simp
          from eq \<open>getEsc chunk = Inr x\<close> x dash Inr y "1.prems"
          have "classLoop r chunk2 (match \<or> (lo \<le> r \<and> r \<le> hi)) (Suc nrange) = Inr (b, rest)"
            by simp
          with "1.IH"(1) [OF nf \<open>getEsc chunk = Inr x\<close> x [symmetric] dash Inr y [symmetric]]
          have "length rest < length chunk2" by simp
          with l1 l2 show ?thesis by simp
        qed
      next
        case False
        with eq Inr x "1.prems"
        have "classLoop r chunk1 (match \<or> (lo \<le> r \<and> r \<le> lo)) (Suc nrange) = Inr (b, rest)"
          by simp
        with "1.IH"(2) [OF nf Inr x [symmetric] False]
        have "length rest < length chunk1" by simp
        with l1 show ?thesis by simp
      qed
    qed
  qed
qed

lemma classLoop_shorter_neg:
  assumes "classLoop r (if neg then tl chunk else chunk) m n = Inr b" and "(x, y) = b"
  shows "length y < Suc (length chunk)"
proof -
  from assms have "length y < length (if neg then tl chunk else chunk)"
    using classLoop_shorter [of r "if neg then tl chunk else chunk" m n x y] by simp
  also have "\<dots> \<le> length chunk" by simp
  finally show ?thesis by simp
qed

text \<open>
  \<open>matchChunk\<close>: the chunk holds only single-character operators (literals, classes,
  \<open>?\<close>).  After the match has failed the loop goes on over the chunk, checking that
  it is well formed, without reading the name any more.
\<close>

function matchChunkLoop :: "bool \<Rightarrow> string \<Rightarrow> string \<Rightarrow> match_error + string option" where
  "matchChunkLoop failed [] s = (if failed then Inr None else Inr (Some s))"
| "matchChunkLoop failed0 (c # chunk) s =
     (let failed = (failed0 \<or> s = []) in
      if c = CHR ''['' then
        (let r = (if failed then 0 else fst (DecodeRuneInString s));
             s1 = (if failed then s else drop (snd (DecodeRuneInString s)) s);
             negated = (chunk \<noteq> [] \<and> hd chunk = CHR ''^'');
             chunk1 = (if negated then tl chunk else chunk)
         in case classLoop r chunk1 False 0 of
              Inl e \<Rightarrow> Inl e
            | Inr (match, chunk2) \<Rightarrow>
                matchChunkLoop (failed \<or> match = negated) chunk2 s1)
      else if c = CHR ''?'' then
        (if failed then matchChunkLoop True chunk s
         else matchChunkLoop (hd s = CHR ''/'') chunk (drop (snd (DecodeRuneInString s)) s))
      else if c = CHR 0x5C then
        (case chunk of
           [] \<Rightarrow> Inl ErrBadPattern
         | d # chunk' \<Rightarrow>
             if failed then matchChunkLoop True chunk' s
             else matchChunkLoop (d \<noteq> hd s) chunk' (tl s))
      else
        (if failed then matchChunkLoop True chunk s
         else matchChunkLoop (c \<noteq> hd s) chunk (tl s)))"
  by pat_completeness auto
termination
  apply (relation "measure (\<lambda>(failed, chunk, s). length chunk)")
        apply simp_all
  apply (erule classLoop_shorter_neg, assumption)
  done

definition matchChunk :: "string \<Rightarrow> string \<Rightarrow> match_error + string option" where
  "matchChunk chunk s = matchChunkLoop False chunk s"

text \<open>
  \<open>scanChunk\<close> takes the next segment of the pattern: leading stars are dropped
  (\<open>star\<close> records whether there were any), and the chunk runs up to the next star
  outside a character class.
\<close>

fun scanBody :: "bool \<Rightarrow> string \<Rightarrow> string \<times> string" where
  "scanBody inrange [] = ([], [])"
| "scanBody inrange (c # cs) =
     (if c = CHR 0x5C then
        (case cs of
           [] \<Rightarrow> ([c], [])
         | d # ds \<Rightarrow> (c # d # fst (scanBody inrange ds), snd (scanBody inrange ds)))
      else if c = CHR ''['' then (c # fst (scanBody True cs), snd (scanBody True cs))
      else if c = CHR '']'' then (c # fst (scanBody False cs), snd (scanBody False cs))
      else if c = CHR ''*'' \<and> \<not> inrange then ([], c # cs)
      else (c # fst (scanBody inrange cs), snd (scanBody inrange cs)))"

definition scanChunk :: "string \<Rightarrow> bool \<times> string \<times> string" where
  "scanChunk pattern =
     (let p = dropWhile (\<lambda>c. c = CHR ''*'') pattern
      in (pattern \<noteq> [] \<and> hd pattern = CHR ''*'', scanBody False p))"

lemma scanBody_le: "length (snd (scanBody inrange p)) \<le> length p"
  by (induction inrange p rule: scanBody.induct) (simp_all add: le_SucI split: list.splits)

lemma scanBody_less:
  assumes "p \<noteq> []" and "hd p \<noteq> CHR ''*''"
  shows "length (snd (scanBody inrange p)) < length p"
proof -
  from assms obtain c cs where p: "p = c # cs" and c: "c \<noteq> CHR ''*''"
    by (cases p) auto
  have "length (snd (scanBody inrange (c # cs))) \<le> length cs"
  proof (cases "c = CHR 0x5C")
    case True
    show ?thesis
    proof (cases cs)
      case Nil
      with True show ?thesis by simp
    next
      case (Cons d ds)
      have "length (snd (scanBody inrange ds)) \<le> length ds" by (rule scanBody_le)
      with True Cons show ?thesis by simp
    qed
  next
    case False
    have "length (snd (scanBody True cs)) \<le> length cs"
      and "length (snd (scanBody False cs)) \<le> length cs"
      and "length (snd (scanBody inrange cs)) \<le> length cs"
      by (rule scanBody_le)+
    with False c show ?thesis by simp
  qed
  with p show ?thesis by simp
qed

lemma scanChunk_shorter:
  assumes "pattern \<noteq> []"
  shows "length (snd (snd (scanChunk pattern))) < length pattern"
proof (cases "hd pattern = CHR ''*''")
  case True
  with assms obtain cs where p: "pattern = CHR ''*'' # cs" by (cases pattern) auto
  have "length (snd (scanBody False (dropWhile (\<lambda>c. c = CHR ''*'') cs)))
          \<le> length (dropWhile (\<lambda>c. c = CHR ''*'') cs)"
    by (rule scanBody_le)
  also have "\<dots> \<le> length cs" by (rule length_dropWhile_le)
  finally show ?thesis by (simp add: scanChunk_def p)
next
  case False
  with assms have "dropWhile (\<lambda>c. c = CHR ''*'') pattern = pattern"
    by (cases pattern) auto
  with assms False show ?thesis
    by (simp add: scanChunk_def scanBody_less)
qed

lemma scanChunk_shorter_Cons:
  "length (snd (snd (scanChunk (c # cs)))) < Suc (length cs)"
  using scanChunk_shorter [of "c # cs"] by simp

text \<open>
  The search after a star: the chunk is tried after skipping \<open>i + 1\<close> bytes of the
  name, for every \<open>i\<close> up to the first separator.  \<open>lastChunk\<close> says that the pattern
  is exhausted, in which case a match must also exhaust the name.
\<close>

fun starLoop :: "string \<Rightarrow> bool \<Rightarrow> string \<Rightarrow> match_error + string option" where
  "starLoop chunk lastChunk [] = Inr None"
| "starLoop chunk lastChunk (c # name) =
     (if c = CHR ''/'' then Inr None
      else
        case matchChunk chunk name of
          Inr (Some t) \<Rightarrow>
            if lastChunk \<and> t \<noteq> [] then starLoop chunk lastChunk name else Inr (Some t)
        | Inl e \<Rightarrow> Inl e
        | Inr None \<Rightarrow> starLoop chunk lastChunk name)"

text \<open>Before \<open>false\<close> is returned with no error, the rest of the pattern is checked.\<close>

function checkRest :: "string \<Rightarrow> match_error + bool" where
  "checkRest [] = Inr False"
| "checkRest (c # cs) =
     (case matchChunk (fst (snd (scanChunk (c # cs)))) [] of
        Inl e \<Rightarrow> Inl e
      | Inr t \<Rightarrow> checkRest (snd (snd (scanChunk (c # cs)))))"
  by pat_completeness auto
termination
  by (relation "measure length") (simp_all add: scanChunk_shorter_Cons)

function Match :: "string \<Rightarrow> string \<Rightarrow> match_error + bool" where
  "Match [] name = Inr (name = [])"
| "Match (c # cs) name =
     (let star = fst (scanChunk (c # cs));
          chunk = fst (snd (scanChunk (c # cs)));
          pattern = snd (snd (scanChunk (c # cs)))
      in if star \<and> chunk = [] then Inr (\<not> Contains name ''/'')
         else
           case matchChunk chunk name of
             Inl e \<Rightarrow> Inl e
           | Inr r \<Rightarrow>
               if r \<noteq> None \<and> (the r = [] \<or> pattern \<noteq> []) then Match pattern (the r)
               else if star then
                 (case starLoop chunk (pattern = []) name of
                    Inl e \<Rightarrow> Inl e
                  | Inr (Some t) \<Rightarrow> Match pattern t
                  | Inr None \<Rightarrow> checkRest pattern)
               else checkRest pattern)"
  by pat_completeness auto
termination
  by (relation "measure (\<lambda>(pattern, name). length pattern)")
    (simp_all add: scanChunk_shorter_Cons)

section \<open>The pattern matcher of \<open>main.go\<close>\<close>

text \<open>
  \<open>matched, _ := filepath.Match(p, name)\<close>: the error is dropped and the boolean
  kept, which the library sets to \<open>false\<close> whenever it reports an error.
\<close>

definition matched :: "match_error + bool \<Rightarrow> bool" where
  "matched r = (case r of Inl e \<Rightarrow> False | Inr b \<Rightarrow> b)"

text \<open>
  The loop over \<open>parts\<close> of the double-star branch: at index \<open>i\<close> the joined rest
  \<open>parts[i:]\<close> is tried first, then the component \<open>parts[i]\<close> alone.
\<close>

fun matchAnySuffix :: "string \<Rightarrow> string list \<Rightarrow> bool" where
  "matchAnySuffix sfx [] = False"
| "matchAnySuffix sfx (part # parts) =
     (if matched (Match sfx (Join (part # parts) ''/'')) then True
      else if matched (Match sfx part) then True
      else matchAnySuffix sfx parts)"

text \<open>The loop over \<open>parts\<close> of the branch for a pattern without separator.\<close>

fun matchAnyPart :: "string \<Rightarrow> string list \<Rightarrow> bool" where
  "matchAnyPart pattern [] = False"
| "matchAnyPart pattern (part # parts) =
     (if matched (Match pattern part) then True else matchAnyPart pattern parts)"

definition matchPattern :: "string \<Rightarrow> string \<Rightarrow> bool \<Rightarrow> bool" where
  "matchPattern relPath pattern0 isDir =
     (let pattern1 = ToSlash pattern0;
          dirOnly = HasSuffix pattern1 ''/'';
          pattern = (if dirOnly then TrimSuffix pattern1 ''/'' else pattern1)
      in if dirOnly \<and> \<not> isDir then False
         else if HasPrefix pattern ''**/'' then
           matchAnySuffix (TrimPrefix pattern ''**/'') (Split relPath CHR ''/'')
         else if \<not> Contains pattern ''/'' then
           (if matched (Match pattern (Base relPath)) then True
            else matchAnyPart pattern (Split relPath CHR ''/''))
         else matched (Match (TrimPrefix pattern ''/'') relPath))"

fun shouldExclude :: "string \<Rightarrow> string list \<Rightarrow> bool \<Rightarrow> bool" where
  "shouldExclude relPath [] isDir = False"
| "shouldExclude relPath (pattern # patterns) isDir =
     (if matchPattern (ToSlash relPath) pattern isDir then True
      else shouldExclude relPath patterns isDir)"

subsection \<open>The rules of the specification, for comparison\<close>

text \<open>
  The double-star rule in the specification's words: the suffix glob-matches the joined
  remainder \<open>parts[i:]\<close> for some starting index \<open>i\<close>, or it glob-matches some single
  component.
\<close>

definition doubleStarRule :: "string \<Rightarrow> string \<Rightarrow> bool" where
  "doubleStarRule sfx relPath =
     (let parts = Split relPath CHR ''/''
      in list_ex (\<lambda>i. matched (Match sfx (Join (drop i parts) ''/''))) [0..<length parts]
         \<or> list_ex (\<lambda>part. matched (Match sfx part)) parts)"

text \<open>The rooted rule: the pattern, less one leading separator, matches the whole path.\<close>

definition rootedRule :: "string \<Rightarrow> string \<Rightarrow> bool" where
  "rootedRule pattern relPath = matched (Match (TrimPrefix pattern ''/'') relPath)"

text \<open>The glob that \<open>matchPattern\<close> hands to \<open>filepath.Match\<close> for a given pattern.\<close>

definition globOf :: "string \<Rightarrow> string" where
  "globOf pattern0 =
     (let pattern = TrimSuffix (ToSlash pattern0) ''/''
      in if HasPrefix pattern ''**/'' then TrimPrefix pattern ''**/''
         else if \<not> Contains pattern ''/'' then pattern
         else TrimPrefix pattern ''/'')"

text \<open>
  A relative path: not empty and not starting at the root.  \<open>prefixDirs ds P\<close> puts the
  directory components \<open>ds\<close> in front of \<open>P\<close>.
\<close>

definition relativePath :: "string \<Rightarrow> bool" where
  "relativePath P = (P \<noteq> [] \<and> hd P \<noteq> CHR ''/'')"

definition prefixDirs :: "string list \<Rightarrow> string \<Rightarrow> string" where
  "prefixDirs ds P = Join (ds @ [P]) ''/''"

section \<open>The file system\<close>

text \<open>
  \<open>sync\<close> reads one tree (the source) and writes another (the destination); the two
  are taken to be disjoint, as the design assumes.  A tree is a \<open>node\<close>: a regular
  file with its permission bits, modification time and bytes, or a directory with its
  permission bits, the size and modification time the host reports for it, and its
  entries in lexical order of their names (the order in which \<open>os.ReadDir\<close> and
  \<open>filepath.WalkDir\<close> deliver them).  A path is the list of its components below the
  root of its tree; the string \<open>main.go\<close> handles is obtained by joining them.

  The host is assumed to grant every permission and to have no I/O faults, so that a
  system call fails only for what the tree itself shows: a missing entry, a file
  where a directory is needed, a directory where a file is needed.  Directory
  metadata is kept as first reported; \<open>now\<close> and \<open>dirSize\<close> are the time stamp and the
  size the host gives to what it creates.
\<close>

type_synonym path = "string list"

datatype node =
    File nat int string
  | Dir nat nat int "(string \<times> node) list"

datatype errno = ENOENT | ENOTDIR | EISDIR

datatype error =
    WalkingSource errno
  | ScanningDestination errno
  | Removing path errno

record host =
  now :: int
  dirSize :: nat

text \<open>What \<open>os.Stat\<close> reports of a node: \<open>IsDir\<close>, \<open>Size\<close>, \<open>ModTime\<close>, \<open>Mode\<close>.\<close>

fun IsDir :: "node \<Rightarrow> bool" where
  "IsDir (File m t d) = False"
| "IsDir (Dir m s t es) = True"

fun Size :: "node \<Rightarrow> nat" where
  "Size (File m t d) = length d"
| "Size (Dir m s t es) = s"

fun ModTime :: "node \<Rightarrow> int" where
  "ModTime (File m t d) = t"
| "ModTime (Dir m s t es) = t"

fun Mode :: "node \<Rightarrow> nat" where
  "Mode (File m t d) = m"
| "Mode (Dir m s t es) = m"

text \<open>A node without what lies below it: the file itself, or the bare directory.\<close>

fun attrs :: "node \<Rightarrow> node" where
  "attrs (File m t d) = File m t d"
| "attrs (Dir m s t es) = Dir m s t []"

fun child :: "node \<Rightarrow> string \<Rightarrow> node option" where
  "child (File m t d) c = None"
| "child (Dir m s t es) c = map_of es c"

text \<open>
  Path resolution from a root that may not exist (\<open>None\<close>); \<open>Stat\<close> is \<open>os.Stat\<close> on
  the path, \<open>None\<close> standing for its error.
\<close>

fun Stat :: "node option \<Rightarrow> path \<Rightarrow> node option" where
  "Stat r [] = r"
| "Stat r (c # cs) = (case r of None \<Rightarrow> None | Some n \<Rightarrow> Stat (child n c) cs)"

definition statAttrs :: "node option \<Rightarrow> path \<Rightarrow> node option" where
  "statAttrs r p = map_option attrs (Stat r p)"

text \<open>Entries are kept sorted by name: insertion replaces or inserts in place.\<close>

fun ins :: "string \<Rightarrow> node \<Rightarrow> (string \<times> node) list \<Rightarrow> (string \<times> node) list" where
  "ins k v [] = [(k, v)]"
| "ins k v ((k', v') # es) =
     (if k = k' then (k, v) # es
      else if k < k' then (k, v) # (k', v') # es
      else (k', v') # ins k v es)"

definition del :: "string \<Rightarrow> (string \<times> node) list \<Rightarrow> (string \<times> node) list" where
  "del k es = filter (\<lambda>e. fst e \<noteq> k) es"

text \<open>
  \<open>os.MkdirAll(path, perm)\<close>: nothing to do for a directory that exists, \<open>ENOTDIR\<close>
  when the path or one of its ancestors is a file; otherwise the missing directories
  are made, parents first, each with \<open>perm\<close>.
\<close>

fun MkdirAll :: "host \<Rightarrow> node option \<Rightarrow> path \<Rightarrow> nat \<Rightarrow> errno + node" where
  "MkdirAll h None [] perm = Inr (Dir perm (dirSize h) (now h) [])"
| "MkdirAll h None (c # cs) perm =
     (case MkdirAll h None cs perm of
        Inl e \<Rightarrow> Inl e
      | Inr ch \<Rightarrow> Inr (Dir perm (dirSize h) (now h) [(c, ch)]))"
| "MkdirAll h (Some (File m t d)) p perm = Inl ENOTDIR"
| "MkdirAll h (Some (Dir m s t es)) [] perm = Inr (Dir m s t es)"
| "MkdirAll h (Some (Dir m s t es)) (c # cs) perm =
     (case MkdirAll h (map_of es c) cs perm of
        Inl e \<Rightarrow> Inl e
      | Inr ch \<Rightarrow> Inr (Dir m s t (ins c ch es)))"

text \<open>
  \<open>alter f r p\<close> replaces what is at \<open>p\<close> by \<open>f\<close> of it; the directories above \<open>p\<close>
  must exist.
\<close>

fun alter :: "(node option \<Rightarrow> errno + node) \<Rightarrow> node option \<Rightarrow> path \<Rightarrow> errno + node" where
  "alter f r [] = f r"
| "alter f None (c # cs) = Inl ENOENT"
| "alter f (Some (File m t d)) (c # cs) = Inl ENOTDIR"
| "alter f (Some (Dir m s t es)) (c # cs) =
     (case alter f (map_of es c) cs of
        Inl e \<Rightarrow> Inl e
      | Inr ch \<Rightarrow> Inr (Dir m s t (ins c ch es)))"

text \<open>
  \<open>os.OpenFile(dest, O_RDWR|O_CREATE|O_TRUNC, mode)\<close>: a new empty file with \<open>mode\<close>,
  or the existing file emptied (its mode kept); a directory cannot be opened for
  writing.
\<close>

fun openTrunc :: "host \<Rightarrow> nat \<Rightarrow> node option \<Rightarrow> errno + node" where
  "openTrunc h mode None = Inr (File mode (now h) [])"
| "openTrunc h mode (Some (File m t d)) = Inr (File m (now h) [])"
| "openTrunc h mode (Some (Dir m s t es)) = Inl EISDIR"

text \<open>
  The three steps of a copy from a regular file, \<open>os.OpenFile\<close> as above, \<open>io.Copy\<close> of
  all the bytes and \<open>os.Chtimes\<close> with the source's modification time, taken together.
\<close>

fun writeFile :: "nat \<Rightarrow> int \<Rightarrow> string \<Rightarrow> node option \<Rightarrow> errno + node" where
  "writeFile mode mtime bytes None = Inr (File mode mtime bytes)"
| "writeFile mode mtime bytes (Some (File m t d)) = Inr (File m mtime bytes)"
| "writeFile mode mtime bytes (Some (Dir m s t es)) = Inl EISDIR"

text \<open>
  \<open>os.RemoveAll(path)\<close>: the entry goes with all below it; a path that does not exist
  is no error, a path through a file is.
\<close>

fun RemoveAll :: "node option \<Rightarrow> path \<Rightarrow> errno + node option" where
  "RemoveAll r [] = Inr None"
| "RemoveAll None (c # cs) = Inr None"
| "RemoveAll (Some (File m t d)) (c # cs) = Inl ENOTDIR"
| "RemoveAll (Some (Dir m s t es)) (c # cs) =
     (case RemoveAll (map_of es c) cs of
        Inl e \<Rightarrow> Inl e
      | Inr None \<Rightarrow> Inr (Some (Dir m s t (del c es)))
      | Inr (Some ch) \<Rightarrow> Inr (Some (Dir m s t (ins c ch es))))"

text \<open>
  A well-formed tree lists every name of a directory once, in lexical order.
\<close>

fun wf_node :: "node \<Rightarrow> bool" and wf_entries :: "(string \<times> node) list \<Rightarrow> bool" where
  "wf_node (File m t d) = True"
| "wf_node (Dir m s t es) = (sorted_wrt (<) (map fst es) \<and> wf_entries es)"
| "wf_entries [] = True"
| "wf_entries (e # es) = (wf_node (snd e) \<and> wf_entries es)"

definition wf_root :: "node option \<Rightarrow> bool" where
  "wf_root r = (case r of None \<Rightarrow> True | Some n \<Rightarrow> wf_node n)"

section \<open>The synchronisation of \<open>main.go\<close>\<close>

text \<open>
  The state a run works on: the destination tree (\<open>None\<close> while the destination root
  does not exist) and, as an observer that no code reads, the list of destination paths
  that \<open>copyFile\<close> has opened for writing.
\<close>

record world =
  tree :: "node option"
  copied :: "path list"

text \<open>
  \<open>copyFile(src, dest)\<close>: \<open>src\<close> is what lies at the source path (\<open>None\<close> if nothing),
  \<open>dest\<close> the destination path.  The parent of the destination root lies outside the
  tree and is taken to exist.
\<close>

definition copyFile :: "host \<Rightarrow> node option \<Rightarrow> path \<Rightarrow> world \<Rightarrow> errno option \<times> world" where
  "copyFile h src dest w =
     (case src of
        None \<Rightarrow> (Some ENOENT, w)
      | Some info \<Rightarrow>
          (case (if dest = [] then Inr (tree w)
                 else map_sum id Some (MkdirAll h (tree w) (butlast dest) 493)) of
             Inl e \<Rightarrow> (Some e, w)
           | Inr t1 \<Rightarrow>
               let w1 = w\<lparr>tree := t1\<rparr> in
               if (case Stat t1 dest of
                     None \<Rightarrow> False
                   | Some destInfo \<Rightarrow>
                       Size destInfo = Size info \<and> ModTime destInfo = ModTime info)
               then (None, w1)
               else
                 (case info of
                    File m t d \<Rightarrow>
                      (case alter (writeFile m t d) t1 dest of
                         Inl e \<Rightarrow> (Some e, w1)
                       | Inr t2 \<Rightarrow>
                           (None, w1\<lparr>tree := Some t2, copied := copied w1 @ [dest]\<rparr>))
                  | Dir m s t es \<Rightarrow>
                      (case alter (openTrunc h m) t1 dest of
                         Inl e \<Rightarrow> (Some e, w1)
                       | Inr t2 \<Rightarrow>
                           (Some EISDIR,
                            w1\<lparr>tree := Some t2, copied := copied w1 @ [dest]\<rparr>)))))"

text \<open>
  The callback of \<open>filepath.WalkDir(src, ...)\<close> in \<open>sync\<close>, together with the walk
  itself: \<open>syncNode\<close> visits the entry at the relative path \<open>rel\<close>, \<open>syncEntries\<close> the
  entries of a directory in order.  \<open>validPaths\<close> is keyed by the relative path, which
  determines the destination path.  \<open>filepath.SkipDir\<close> for an excluded directory and
  \<open>nil\<close> for an excluded file both leave the entry and all below it unvisited.
\<close>

fun syncNode ::
    "host \<Rightarrow> string list \<Rightarrow> path \<Rightarrow> node \<Rightarrow> world \<times> path set \<Rightarrow> errno option \<times> world \<times> path set"
  and syncEntries ::
    "host \<Rightarrow> string list \<Rightarrow> path \<Rightarrow> (string \<times> node) list \<Rightarrow> world \<times> path set
      \<Rightarrow> errno option \<times> world \<times> path set" where
  "syncNode h patterns rel (File m t d) st =
     (if shouldExclude (Join rel ''/'') patterns False then (None, st)
      else
        case copyFile h (Some (File m t d)) rel (fst st) of
          (e, w) \<Rightarrow> (e, w, insert rel (snd st)))"
| "syncNode h patterns rel (Dir m s t es) st =
     (if shouldExclude (Join rel ''/'') patterns True then (None, st)
      else
        case MkdirAll h (tree (fst st)) rel m of
          Inl e \<Rightarrow> (Some e, fst st, insert rel (snd st))
        | Inr t1 \<Rightarrow>
            syncEntries h patterns rel es ((fst st)\<lparr>tree := Some t1\<rparr>, insert rel (snd st)))"
| "syncEntries h patterns rel [] st = (None, st)"
| "syncEntries h patterns rel (e # es) st =
     (case syncNode h patterns (rel @ [fst e]) (snd e) st of
        (Some err, st1) \<Rightarrow> (Some err, st1)
      | (None, st1) \<Rightarrow> syncEntries h patterns rel es st1)"

text \<open>The forward phase: the walk from the source root, which itself is skipped.\<close>

definition forwardPhase ::
    "host \<Rightarrow> node \<Rightarrow> string list \<Rightarrow> world \<Rightarrow> errno option \<times> world \<times> path set" where
  "forwardPhase h src patterns w =
     (case src of
        File m t d \<Rightarrow> (None, w, {})
      | Dir m s t es \<Rightarrow> syncEntries h patterns [] es (w, {}))"

text \<open>
  The walk of \<open>cleanOrphans\<close> over the destination, as the list of the paths it
  appends to \<open>toRemove\<close>, in the order of the walk: a path that is not valid is put on
  the list, and a directory put on the list is not entered (\<open>filepath.SkipDir\<close>).
\<close>

fun scanNode :: "path set \<Rightarrow> path \<Rightarrow> node \<Rightarrow> path list"
  and scanEntries :: "path set \<Rightarrow> path \<Rightarrow> (string \<times> node) list \<Rightarrow> path list" where
  "scanNode validPaths p (File m t d) = (if p \<notin> validPaths then [p] else [])"
| "scanNode validPaths p (Dir m s t es) =
     (if p \<notin> validPaths then [p] else scanEntries validPaths p es)"
| "scanEntries validPaths p [] = []"
| "scanEntries validPaths p (e # es) =
     scanNode validPaths (p @ [fst e]) (snd e) @ scanEntries validPaths p es"

text \<open>The root of the walk is skipped, and entered when it is a directory.\<close>

fun scanRoot :: "path set \<Rightarrow> node \<Rightarrow> path list" where
  "scanRoot validPaths (File m t d) = []"
| "scanRoot validPaths (Dir m s t es) = scanEntries validPaths [] es"

fun removeLoop :: "path list \<Rightarrow> world \<Rightarrow> error option \<times> world" where
  "removeLoop [] w = (None, w)"
| "removeLoop (p # ps) w =
     (case RemoveAll (tree w) p of
        Inl e \<Rightarrow> (Some (Removing p e), w)
      | Inr t \<Rightarrow> removeLoop ps (w\<lparr>tree := t\<rparr>))"

definition cleanOrphans :: "path set \<Rightarrow> world \<Rightarrow> error option \<times> world" where
  "cleanOrphans validPaths w =
     (case tree w of
        None \<Rightarrow> (None, w)
      | Some n \<Rightarrow> removeLoop (scanRoot validPaths n) w)"

definition sync :: "host \<Rightarrow> node \<Rightarrow> string list \<Rightarrow> world \<Rightarrow> error option \<times> world" where
  "sync h src patterns w =
     (case forwardPhase h src patterns w of
        (Some e, w1, validPaths) \<Rightarrow> (Some (WalkingSource e), w1)
      | (None, w1, validPaths) \<Rightarrow> cleanOrphans validPaths w1)"

text \<open>
  The destination path of a relative path, \<open>filepath.Join(dest, relPath)\<close>, for a
  destination root in clean form other than \<open>/\<close>; a file name is not empty and has no
  separator in it.
\<close>

definition destPath :: "string \<Rightarrow> path \<Rightarrow> string" where
  "destPath dest rel = dest @ ''/'' @ Join rel ''/''"

definition fileName :: "string \<Rightarrow> bool" where
  "fileName c = (c \<noteq> [] \<and> CHR ''/'' \<notin> set c)"

section \<open>Notions used in the proofs\<close>

text \<open>
  The relative paths the forward phase records when it runs to its end: those of the
  entries that are not excluded and lie below no excluded directory.
\<close>

fun validNode :: "string list \<Rightarrow> path \<Rightarrow> node \<Rightarrow> path set"
  and validEntries :: "string list \<Rightarrow> path \<Rightarrow> (string \<times> node) list \<Rightarrow> path set" where
  "validNode patterns rel (File m t d) =
     (if shouldExclude (Join rel ''/'') patterns False then {} else {rel})"
| "validNode patterns rel (Dir m s t es) =
     (if shouldExclude (Join rel ''/'') patterns True then {}
      else insert rel (validEntries patterns rel es))"
| "validEntries patterns rel [] = {}"
| "validEntries patterns rel (e # es) =
     validNode patterns (rel @ [fst e]) (snd e) \<union> validEntries patterns rel es"

text \<open>
  A source entry is settled in a destination when a run has nothing to do for it: a
  file that is not excluded has a counterpart of its size and modification time, a
  directory that is not excluded has a directory as its counterpart and all its
  entries are settled.
\<close>

fun settledNode :: "string list \<Rightarrow> path \<Rightarrow> node \<Rightarrow> node option \<Rightarrow> bool"
  and settledEntries :: "string list \<Rightarrow> path \<Rightarrow> (string \<times> node) list \<Rightarrow> node option \<Rightarrow> bool" where
  "settledNode patterns rel (File m t d) r =
     (if shouldExclude (Join rel ''/'') patterns False then True
      else case statAttrs r rel of
             None \<Rightarrow> False
           | Some x \<Rightarrow> Size x = length d \<and> ModTime x = t)"
| "settledNode patterns rel (Dir m s t es) r =
     (if shouldExclude (Join rel ''/'') patterns True then True
      else (case statAttrs r rel of None \<Rightarrow> False | Some x \<Rightarrow> IsDir x)
           \<and> settledEntries patterns rel es r)"
| "settledEntries patterns rel [] r = True"
| "settledEntries patterns rel (e # es) r =
     (settledNode patterns (rel @ [fst e]) (snd e) r \<and> settledEntries patterns rel es r)"

text \<open>
  A function on what lies at a path that, when it succeeds, leaves a regular file
  where there was a regular file or nothing.
\<close>

definition notDir :: "node option \<Rightarrow> bool" where
  "notDir x = (case x of None \<Rightarrow> True | Some n \<Rightarrow> \<not> IsDir n)"

definition fileWriter :: "(node option \<Rightarrow> errno + node) \<Rightarrow> bool" where
  "fileWriter f = (\<forall>x y. f x = Inr y \<longrightarrow> \<not> IsDir y \<and> notDir x)"

section \<open>An example\<close>

text \<open>
  A source tree with a log file and a build directory, both excluded, and a
  destination that holds a stale copy of the build directory, an orphaned directory
  with a file in it and an orphaned file.
\<close>

definition exHost :: host where
  "exHost = \<lparr>now = 1000, dirSize = 4096\<rparr>"

definition exSrc :: node where
  "exSrc =
     Dir 493 4096 5
       [(''build'', Dir 493 4096 7 [(''out.bin'', File 420 8 ''bin'')]),
        (''file1.txt'', File 420 10 ''hello''),
        (''ignore.log'', File 420 11 ''logs''),
        (''subdir'', Dir 493 4096 6 [(''file2.txt'', File 420 12 ''world'')])]"

definition exPatterns :: "string list" where
  "exPatterns = [''*.log'', ''build/'']"

definition exDest :: world where
  "exDest =
     \<lparr>tree = Some (Dir 448 4096 1
        [(''build'', Dir 493 4096 2 [(''stale.bin'', File 420 2 ''old'')]),
         (''old'', Dir 493 4096 3 [(''nested.txt'', File 420 3 ''orphan'')]),
         (''orphan.txt'', File 420 3 ''orphan'')]),
      copied = []\<rparr>"

text \<open>The example after the forward phase, the paths recorded, and the example after the run.\<close>

definition exMid :: world where
  "exMid =
     \<lparr>tree = Some (Dir 448 4096 1
        [(''build'', Dir 493 4096 2 [(''stale.bin'', File 420 2 ''old'')]),
         (''file1.txt'', File 420 10 ''hello''),
         (''old'', Dir 493 4096 3 [(''nested.txt'', File 420 3 ''orphan'')]),
         (''orphan.txt'', File 420 3 ''orphan''),
         (''subdir'', Dir 493 4096 1000 [(''file2.txt'', File 420 12 ''world'')])]),
      copied = [[''file1.txt''], [''subdir'', ''file2.txt'']]\<rparr>"

definition exValid :: "path set" where
  "exValid = {[''file1.txt''], [''subdir''], [''subdir'', ''file2.txt'']}"

definition exAfter :: world where
  "exAfter =
     \<lparr>tree = Some (Dir 448 4096 1
        [(''file1.txt'', File 420 10 ''hello''),
         (''subdir'', Dir 493 4096 1000 [(''file2.txt'', File 420 12 ''world'')])]),
      copied = [[''file1.txt''], [''subdir'', ''file2.txt'']]\<rparr>"

section \<open>Properties of the pattern matcher\<close>

lemma Contains_single: "Contains s [c] = (c \<in> set s)"
  by (induction s) (auto simp: HasPrefix_def)

lemma HasSuffix_single: "HasSuffix p [c] = (p \<noteq> [] \<and> last p = c)"
proof (cases p rule: rev_cases)
  case Nil
  then show ?thesis by (simp add: HasSuffix_def)
next
  case (snoc ys y)
  then show ?thesis by (auto simp: HasSuffix_def)
qed

lemma HasSuffix_Contains: "HasSuffix p [c] \<Longrightarrow> Contains p [c]"
  by (auto simp: HasSuffix_single Contains_single)

lemma HasPrefix_Contains_slash: "HasPrefix p ''**/'' \<Longrightarrow> Contains p ''/''"
proof -
  assume h: "HasPrefix p ''**/''"
  have "take (length ''**/'') p @ drop (length ''**/'') p = p"
    by (rule append_take_drop_id)
  with h have eq: "''**/'' @ drop (length ''**/'') p = p"
    by (simp only: HasPrefix_def)
  have "CHR ''/'' \<in> set (''**/'' @ drop (length ''**/'') p)"
    by simp
  then have "CHR ''/'' \<in> set p"
    by (simp only: eq)
  then show ?thesis by (simp add: Contains_single)
qed

lemma TrimSuffix_not: "\<not> HasSuffix p s \<Longrightarrow> TrimSuffix p s = p"
  by (simp add: TrimSuffix_def)

lemma matchAnyPart_iff:
  "matchAnyPart pattern parts = (\<exists>part \<in> set parts. matched (Match pattern part))"
  by (induction parts) auto

lemma matchAnySuffix_iff:
  "matchAnySuffix sfx parts =
     ((\<exists>i < length parts. matched (Match sfx (Join (drop i parts) ''/'')))
      \<or> (\<exists>part \<in> set parts. matched (Match sfx part)))"
proof (induction parts)
  case Nil
  show ?case by simp
next
  case (Cons p ps)
  have idx: "(\<exists>i < length (p # ps). matched (Match sfx (Join (drop i (p # ps)) ''/'')))
      = (matched (Match sfx (Join (p # ps) ''/''))
         \<or> (\<exists>i < length ps. matched (Match sfx (Join (drop i ps) ''/''))))"
    (is "?L = (?A \<or> ?B)")
  proof
    assume ?L
    then obtain i where i: "i < length (p # ps)"
      and m: "matched (Match sfx (Join (drop i (p # ps)) ''/''))" by blast
    show "?A \<or> ?B"
    proof (cases i)
      case 0
      with m show ?thesis by simp
    next
      case (Suc j)
      with i m have "j < length ps" "matched (Match sfx (Join (drop j ps) ''/''))"
        by simp_all
      then show ?thesis by blast
    qed
  next
    assume "?A \<or> ?B"
    then show ?L
    proof
      assume ?A
      then have "matched (Match sfx (Join (drop 0 (p # ps)) ''/''))" by simp
      then show ?L by (intro exI [of _ 0]) simp
    next
      assume ?B
      then obtain j where "j < length ps" "matched (Match sfx (Join (drop j ps) ''/''))"
        by blast
      then have "Suc j < length (p # ps)
          \<and> matched (Match sfx (Join (drop (Suc j) (p # ps)) ''/''))" by simp
      then show ?L by blast
    qed
  qed
  show ?case
    unfolding idx using Cons.IH by (simp del: Join.simps)
qed

lemma doubleStarRule_iff:
  "doubleStarRule sfx relPath = matchAnySuffix sfx (Split relPath CHR ''/'')"
  by (simp add: doubleStarRule_def matchAnySuffix_iff Let_def list_ex_iff Bex_def
      del: Join.simps)

lemma Split_nonempty: "Split s c \<noteq> []"
  by (induction s) auto

lemma Split_append_sep: "Split (a @ c # b) c = Split a c @ Split b c"
proof (induction a)
  case Nil
  show ?case by simp
next
  case (Cons x a)
  have ne: "Split a c \<noteq> []" by (rule Split_nonempty)
  show ?case
  proof (cases "x = c")
    case True
    with Cons show ?thesis by simp
  next
    case False
    from ne obtain h t where ht: "Split a c = h # t" by (cases "Split a c") auto
    with False Cons show ?thesis by simp
  qed
qed

lemma Split_no_sep: "c \<notin> set q \<Longrightarrow> Split q c = [q]"
  by (induction q) auto

lemma Split_last_part:
  assumes "c \<notin> set q" and "a = [] \<or> last a = c"
  shows "q \<in> set (Split (a @ q) c)"
proof (cases "a = []")
  case True
  with assms show ?thesis by (simp add: Split_no_sep)
next
  case False
  with assms obtain a' where "a = a' @ [c]"
    by (metis append_butlast_last_id)
  then have "Split (a @ q) c = Split a' c @ Split q c"
    using Split_append_sep [of a' c q] by simp
  with assms show ?thesis by (simp add: Split_no_sep)
qed

lemma Split_trailing:
  "q \<in> set (Split s c) \<Longrightarrow> q \<in> set (Split (s @ replicate n c) c)"
proof (induction n)
  case 0
  then show ?case by simp
next
  case (Suc n)
  have "s @ replicate (Suc n) c = (s @ replicate n c) @ c # []"
    by (simp add: replicate_append_same)
  then have "Split (s @ replicate (Suc n) c) c = Split (s @ replicate n c) c @ Split [] c"
    using Split_append_sep [of "s @ replicate n c" c "[]"] by simp
  with Suc show ?case by simp
qed

lemma dropWhile_hd: "dropWhile (\<lambda>c. c \<noteq> x) ys = [] \<or> hd (dropWhile (\<lambda>c. c \<noteq> x) ys) = x"
  by (induction ys) auto

lemma rev_last_sep: "zs = [] \<or> hd zs = x \<Longrightarrow> rev zs = [] \<or> last (rev zs) = x"
  by (cases zs) auto

lemma Base_in_Split:
  assumes "relativePath P"
  shows "Base P \<in> set (Split P CHR ''/'')"
proof -
  let ?sl = "takeWhile (\<lambda>c. c = CHR ''/'') (rev P)"
  let ?rp = "dropWhile (\<lambda>c. c = CHR ''/'') (rev P)"
  let ?rq = "takeWhile (\<lambda>c. c \<noteq> CHR ''/'') ?rp"
  let ?ra = "dropWhile (\<lambda>c. c \<noteq> CHR ''/'') ?rp"
  from assms have ne: "P \<noteq> []" and hd: "hd P \<noteq> CHR ''/''"
    by (simp_all add: relativePath_def)
  define n where "n = length ?sl"
  have "\<forall>x \<in> set (rev ?sl). x = CHR ''/''"
    by (auto dest: set_takeWhileD)
  then have "replicate (length (rev ?sl)) CHR ''/'' = rev ?sl"
    by (rule replicate_length_same)
  then have sl: "rev ?sl = replicate n CHR ''/''"
    by (simp add: n_def)
  have "rev (rev P) = rev (?sl @ ?rq @ ?ra)"
    by (simp only: takeWhile_dropWhile_id)
  then have P: "P = (rev ?ra @ rev ?rq) @ replicate n CHR ''/''"
    by (simp only: rev_rev_ident rev_append sl append_assoc)
  have q: "CHR ''/'' \<notin> set (rev ?rq)"
    by (auto dest: set_takeWhileD)
  have a: "rev ?ra = [] \<or> last (rev ?ra) = CHR ''/''"
    by (rule rev_last_sep) (rule dropWhile_hd)
  have rp_ne: "?rp \<noteq> []"
  proof
    assume "?rp = []"
    then have "\<forall>c \<in> set (rev P). c = CHR ''/''" by (simp add: dropWhile_eq_Nil_conv)
    with ne hd show False by (cases P) auto
  qed
  have "hd ?rp \<noteq> CHR ''/''" using rp_ne hd_dropWhile [of "\<lambda>c. c = CHR ''/''" "rev P"] by simp
  with rp_ne have rq_ne: "?rq \<noteq> []" by (cases ?rp) auto
  have base: "Base P = rev ?rq"
    using ne rq_ne by (simp add: Base_def Let_def)
  have "rev ?rq \<in> set (Split (rev ?ra @ rev ?rq) CHR ''/'')"
    using q a by (rule Split_last_part)
  then have "rev ?rq \<in> set (Split ((rev ?ra @ rev ?rq) @ replicate n CHR ''/'') CHR ''/'')"
    by (rule Split_trailing)
  with P base show ?thesis by (simp only:)
qed

lemma Join_Cons: "xs \<noteq> [] \<Longrightarrow> Join (x # xs) sep = x @ sep @ Join xs sep"
  by (cases xs) auto

lemma Split_prefixDirs:
  "set (Split P CHR ''/'') \<subseteq> set (Split (prefixDirs ds P) CHR ''/'')"
proof (induction ds)
  case Nil
  show ?case by (simp add: prefixDirs_def)
next
  case (Cons d ds)
  have "prefixDirs (d # ds) P = d @ CHR ''/'' # prefixDirs ds P"
    by (simp add: prefixDirs_def Join_Cons)
  then have "Split (prefixDirs (d # ds) P) CHR ''/''
      = Split d CHR ''/'' @ Split (prefixDirs ds P) CHR ''/''"
    by (simp add: Split_append_sep)
  with Cons show ?case by auto
qed

lemma Match_open_bracket: "Match ''['' name = Inl ErrBadPattern"
proof -
  have g: "getEsc [] = Inl ErrBadPattern" by (simp add: getEsc_def)
  have c: "\<And>r. classLoop r [] False 0 = Inl ErrBadPattern"
    by (subst classLoop.simps) (simp add: g)
  have "matchChunk ''['' name = Inl ErrBadPattern"
    by (simp add: matchChunk_def Let_def c)
  moreover have "scanChunk ''['' = (False, ''['', [])"
    by (simp add: scanChunk_def)
  ultimately show ?thesis by (simp add: Let_def)
qed

lemma matchPattern_unfold:
  "matchPattern relPath pattern isDir =
     ((HasSuffix pattern ''/'' \<longrightarrow> isDir) \<and>
      (if HasPrefix (TrimSuffix pattern ''/'') ''**/'' then
         matchAnySuffix (TrimPrefix (TrimSuffix pattern ''/'') ''**/'') (Split relPath CHR ''/'')
       else if \<not> Contains (TrimSuffix pattern ''/'') ''/'' then
         matched (Match (TrimSuffix pattern ''/'') (Base relPath))
         \<or> matchAnyPart (TrimSuffix pattern ''/'') (Split relPath CHR ''/'')
       else matched (Match (TrimPrefix (TrimSuffix pattern ''/'') ''/'') relPath)))"
proof (cases "HasSuffix pattern ''/''")
  case True
  then show ?thesis by (simp add: matchPattern_def ToSlash_def Let_def)
next
  case False
  then have "TrimSuffix pattern ''/'' = pattern" by (rule TrimSuffix_not)
  with False show ?thesis by (simp add: matchPattern_def ToSlash_def Let_def)
qed

section \<open>Properties of the file-system operations\<close>

subsection \<open>Directory entries\<close>

lemma map_of_ins: "map_of (ins k v es) = (map_of es)(k \<mapsto> v)"
  by (induction es) (auto simp: fun_eq_iff)

lemma keys_ins: "set (map fst (ins k v es)) = insert k (set (map fst es))"
  by (induction k v es rule: ins.induct) auto

lemma sorted_ins:
  "sorted_wrt (<) (map fst es) \<Longrightarrow> sorted_wrt (<) (map fst (ins k v es))"
proof (induction es)
  case Nil
  show ?case by simp
next
  case (Cons e es)
  obtain k' v' where e: "e = (k', v')" by (cases e)
  from Cons.prems e have lt: "\<forall>x \<in> set (map fst es). k' < x"
    and s: "sorted_wrt (<) (map fst es)" by auto
  show ?case
  proof (cases "k = k'")
    case True
    with Cons.prems e show ?thesis by auto
  next
    case False
    note ne = False
    show ?thesis
    proof (cases "k < k'")
      case True
      with Cons.prems e show ?thesis by (auto intro: less_trans)
    next
      case False
      with ne have "k' < k" by simp
      with lt have "\<forall>x \<in> set (map fst (ins k v es)). k' < x"
        by (simp only: keys_ins) auto
      with Cons.IH [OF s] e ne False show ?thesis by simp
    qed
  qed
qed

lemma map_of_sorted_less:
  fixes k :: string
  shows "\<forall>x \<in> set (map fst es). k < x \<Longrightarrow> map_of es k = None"
  by (induction es) auto

lemma ins_same:
  "sorted_wrt (<) (map fst es) \<Longrightarrow> map_of es k = Some v \<Longrightarrow> ins k v es = es"
proof (induction es)
  case Nil
  then show ?case by simp
next
  case (Cons e es)
  obtain k' v' where e: "e = (k', v')" by (cases e)
  from Cons.prems e have lt: "\<forall>x \<in> set (map fst es). k' < x"
    and s: "sorted_wrt (<) (map fst es)" by auto
  show ?case
  proof (cases "k = k'")
    case True
    with Cons.prems e show ?thesis by simp
  next
    case False
    with Cons.prems e have m: "map_of es k = Some v" by simp
    have "\<not> k < k'"
    proof
      assume "k < k'"
      with lt have "\<forall>x \<in> set (map fst es). k < x" by (auto intro: less_trans)
      then have "map_of es k = None" by (rule map_of_sorted_less)
      with m show False by simp
    qed
    with False e Cons.IH [OF s m] show ?thesis by simp
  qed
qed

lemma map_of_del: "map_of (del k es) = (map_of es)(k := None)"
  by (induction es) (auto simp: del_def fun_eq_iff)

lemma sorted_del:
  "sorted_wrt (<) (map fst es) \<Longrightarrow> sorted_wrt (<) (map fst (del k es))"
  by (induction es) (auto simp: del_def)

lemma wf_entries_iff: "wf_entries es = (\<forall>e \<in> set es. wf_node (snd e))"
  by (induction es) auto

lemma set_ins: "set (ins k v es) \<subseteq> insert (k, v) (set es)"
  by (induction k v es rule: ins.induct) auto

lemma wf_entries_ins: "wf_entries es \<Longrightarrow> wf_node v \<Longrightarrow> wf_entries (ins k v es)"
  using set_ins [of k v es] by (auto simp: wf_entries_iff)

lemma wf_entries_del: "wf_entries es \<Longrightarrow> wf_entries (del k es)"
  by (auto simp: wf_entries_iff del_def)

lemma wf_map_of: "wf_entries es \<Longrightarrow> map_of es k = Some n \<Longrightarrow> wf_node n"
  by (auto simp: wf_entries_iff dest!: map_of_SomeD)

lemma wf_root_child:
  "wf_node (Dir m s t es) \<Longrightarrow> wf_root (map_of es c)"
  by (auto simp: wf_root_def dest: wf_map_of split: option.splits)

lemma wf_Dir_ins:
  "wf_node (Dir m s t es) \<Longrightarrow> wf_node v \<Longrightarrow> wf_node (Dir m s t (ins k v es))"
  by (simp add: sorted_ins wf_entries_ins)

lemma wf_Dir_del:
  "wf_node (Dir m s t es) \<Longrightarrow> wf_node (Dir m s t (del k es))"
  by (simp add: sorted_del wf_entries_del)

subsection \<open>Path resolution\<close>

lemma Stat_None [simp]: "Stat None p = None"
  by (cases p) auto

lemma Stat_File [simp]: "p \<noteq> [] \<Longrightarrow> Stat (Some (File m t d)) p = None"
  by (cases p) auto

lemma Stat_Dir_Cons [simp]: "Stat (Some (Dir m s t es)) (c # cs) = Stat (map_of es c) cs"
  by simp

lemma Stat_append: "Stat r (p @ q) = Stat (Stat r p) q"
proof (induction p arbitrary: r)
  case Nil
  show ?case by simp
next
  case (Cons c p)
  show ?case by (cases r) (simp_all add: Cons.IH)
qed

lemma Stat_prefix_exists:
  assumes "Stat r p \<noteq> None" and "prefix q p"
  shows "Stat r q \<noteq> None"
proof -
  from assms(2) obtain q' where "p = q @ q'" by (auto simp: prefix_def)
  with assms(1) show ?thesis by (cases "Stat r q") (auto simp: Stat_append)
qed

lemma Stat_strict_prefix_Dir:
  assumes "Stat r p \<noteq> None" and "strict_prefix q p"
  shows "\<exists>m s t es. Stat r q = Some (Dir m s t es)"
proof -
  from assms(2) obtain c q' where p: "p = q @ c # q'"
    by (auto simp: strict_prefix_def prefix_def) (metis list.exhaust append_Nil2)
  with assms(1) have ne: "Stat (Stat r q) (c # q') \<noteq> None" by (simp add: Stat_append)
  then obtain a where a: "Stat r q = Some a" by (cases "Stat r q") auto
  with ne show ?thesis by (cases a) auto
qed

lemma wf_Stat: "wf_root r \<Longrightarrow> wf_root (Stat r p)"
proof (induction p arbitrary: r)
  case Nil
  then show ?case by simp
next
  case (Cons c p)
  show ?case
  proof (cases r)
    case None
    then show ?thesis by (simp add: wf_root_def)
  next
    case (Some n)
    with Cons.prems have "wf_root (child n c)"
      by (cases n) (auto simp: wf_root_def dest: wf_map_of split: option.splits)
    from Cons.IH [OF this] Some show ?thesis by simp
  qed
qed

subsection \<open>\<open>MkdirAll\<close>\<close>

lemma MkdirAll_wf:
  "wf_root r \<Longrightarrow> MkdirAll h r p perm = Inr n \<Longrightarrow> wf_node n"
proof (induction h r p perm arbitrary: n rule: MkdirAll.induct)
  case (1 h perm)
  then show ?case by auto
next
  case (2 h c cs perm)
  then show ?case by (auto simp: wf_root_def split: sum.splits)
next
  case (3 h m t d p perm)
  then show ?case by simp
next
  case (4 h m s t es perm)
  then show ?case by (auto simp: wf_root_def)
next
  case (5 h m s t es c cs perm)
  from "5.prems"(1) have w: "wf_node (Dir m s t es)" by (simp add: wf_root_def)
  from "5.prems"(2) obtain ch where ch: "MkdirAll h (map_of es c) cs perm = Inr ch"
    and n: "n = Dir m s t (ins c ch es)" by (auto split: sum.splits)
  from "5.IH" [OF wf_root_child [OF w] ch] have "wf_node ch" .
  with w n show ?case by (simp only: wf_Dir_ins)
qed

lemma MkdirAll_existing:
  "wf_root r \<Longrightarrow> Stat r p = Some x \<Longrightarrow> IsDir x \<Longrightarrow> \<exists>n. r = Some n \<and> MkdirAll h r p perm = Inr n"
proof (induction h r p perm rule: MkdirAll.induct)
  case (1 h perm)
  then show ?case by simp
next
  case (2 h c cs perm)
  then show ?case by simp
next
  case (3 h m t d p perm)
  then show ?case by (cases p) auto
next
  case (4 h m s t es perm)
  then show ?case by auto
next
  case (5 h m s t es c cs perm)
  from "5.prems"(1) have w: "wf_node (Dir m s t es)" by (simp add: wf_root_def)
  from "5.prems"(2) have st: "Stat (map_of es c) cs = Some x" by simp
  from "5.IH" [OF wf_root_child [OF w] st "5.prems"(3)]
  obtain ch where ch: "map_of es c = Some ch" "MkdirAll h (map_of es c) cs perm = Inr ch"
    by blast
  from w ch(1) have "ins c ch es = es" by (simp add: ins_same)
  with ch show ?case by simp
qed

lemma MkdirAll_host:
  "MkdirAll h r p perm = Inl e \<Longrightarrow> MkdirAll h' r p perm = Inl e"
  by (induction h r p perm rule: MkdirAll.induct) (auto split: sum.splits)

lemma MkdirAll_statAttrs:
  "MkdirAll h r p perm = Inr n \<Longrightarrow>
     statAttrs (Some n) q =
       (if prefix q p \<and> Stat r q = None then Some (Dir perm (dirSize h) (now h) [])
        else statAttrs r q)"
proof (induction h r p perm arbitrary: n q rule: MkdirAll.induct)
  case (1 h perm)
  then show ?case by (cases q) (auto simp: statAttrs_def)
next
  case (2 h c cs perm)
  from "2.prems" obtain ch where ch: "MkdirAll h None cs perm = Inr ch"
    and n: "n = Dir perm (dirSize h) (now h) [(c, ch)]" by (auto split: sum.splits)
  show ?case
  proof (cases q)
    case Nil
    with n show ?thesis by (simp add: statAttrs_def)
  next
    case (Cons c' q')
    with n "2.IH" [OF ch, of q'] show ?thesis by (auto simp: statAttrs_def)
  qed
next
  case (3 h m t d p perm)
  then show ?case by simp
next
  case (4 h m s t es perm)
  then show ?case by (cases q) (auto simp: statAttrs_def)
next
  case (5 h m s t es c cs perm)
  from "5.prems" obtain ch where ch: "MkdirAll h (map_of es c) cs perm = Inr ch"
    and n: "n = Dir m s t (ins c ch es)" by (auto split: sum.splits)
  show ?case
  proof (cases q)
    case Nil
    with n show ?thesis by (simp add: statAttrs_def)
  next
    case (Cons c' q')
    with n "5.IH" [OF ch, of q'] show ?thesis by (auto simp: statAttrs_def map_of_ins)
  qed
qed

subsection \<open>\<open>alter\<close>, \<open>writeFile\<close>, \<open>openTrunc\<close>\<close>

lemma MkdirAll_result_Dir:
  "MkdirAll h r p perm = Inr n \<Longrightarrow> \<exists>m s t es. Stat (Some n) p = Some (Dir m s t es)"
proof (induction h r p perm arbitrary: n rule: MkdirAll.induct)
  case (2 h c cs perm)
  then show ?case by (auto split: sum.splits)
next
  case (5 h m s t es c cs perm)
  then show ?case by (auto simp: map_of_ins split: sum.splits)
qed auto

lemma alter_wf:
  "wf_root r \<Longrightarrow> alter f r p = Inr n \<Longrightarrow> (\<forall>x y. f x = Inr y \<longrightarrow> wf_node y) \<Longrightarrow> wf_node n"
proof (induction f r p arbitrary: n rule: alter.induct)
  case (1 f r)
  then show ?case by auto
next
  case (2 f c cs)
  then show ?case by simp
next
  case (3 f m t d c cs)
  then show ?case by simp
next
  case (4 f m s t es c cs)
  from "4.prems"(1) have w: "wf_node (Dir m s t es)" by (simp add: wf_root_def)
  from "4.prems"(2) obtain ch where ch: "alter f (map_of es c) cs = Inr ch"
    and n: "n = Dir m s t (ins c ch es)" by (auto split: sum.splits)
  from "4.IH" [OF wf_root_child [OF w] ch "4.prems"(3)] have "wf_node ch" .
  with w n show ?case by (simp only: wf_Dir_ins)
qed

lemma alter_other:
  "alter f r p = Inr n \<Longrightarrow> \<not> prefix p q \<Longrightarrow> statAttrs (Some n) q = statAttrs r q"
proof (induction f r p arbitrary: n q rule: alter.induct)
  case (1 f r)
  then show ?case by simp
next
  case (2 f c cs)
  then show ?case by simp
next
  case (3 f m t d c cs)
  then show ?case by simp
next
  case (4 f m s t es c cs)
  from "4.prems"(1) obtain ch where ch: "alter f (map_of es c) cs = Inr ch"
    and n: "n = Dir m s t (ins c ch es)" by (auto split: sum.splits)
  show ?case
  proof (cases q)
    case Nil
    with n show ?thesis by (simp add: statAttrs_def)
  next
    case (Cons c' q')
    show ?thesis
    proof (cases "c' = c")
      case True
      with Cons "4.prems"(2) have "\<not> prefix cs q'" by simp
      from "4.IH" [OF ch this] n Cons True show ?thesis
        by (simp add: statAttrs_def map_of_ins)
    next
      case False
      with n Cons show ?thesis by (simp add: statAttrs_def map_of_ins)
    qed
  qed
qed

lemma alter_at:
  "alter f r p = Inr n \<Longrightarrow> \<exists>y. f (Stat r p) = Inr y \<and> Stat (Some n) p = Some y"
proof (induction f r p arbitrary: n rule: alter.induct)
  case (4 f m s t es c cs)
  then show ?case by (auto simp: map_of_ins split: sum.splits)
qed auto

lemma writeFile_result:
  "writeFile m t d x = Inr y \<Longrightarrow> \<exists>m'. y = File m' t d"
  by (cases "(m, t, d, x)" rule: writeFile.cases) auto

lemma fileWriter_writeFile: "fileWriter (writeFile m t d)"
  unfolding fileWriter_def
proof (intro allI impI)
  fix x y
  assume "writeFile m t d x = Inr y"
  then show "\<not> IsDir y \<and> notDir x"
    by (cases "(m, t, d, x)" rule: writeFile.cases) (auto simp: notDir_def)
qed

lemma fileWriter_openTrunc: "fileWriter (openTrunc h m)"
  unfolding fileWriter_def
proof (intro allI impI)
  fix x y
  assume "openTrunc h m x = Inr y"
  then show "\<not> IsDir y \<and> notDir x"
    by (cases "(h, m, x)" rule: openTrunc.cases) (auto simp: notDir_def)
qed

lemma notDir_below: "notDir x \<Longrightarrow> Stat x (c # q) = None"
proof (cases x)
  case None
  then show ?thesis by simp
next
  case (Some n)
  assume "notDir x"
  with Some show ?thesis by (cases n) (auto simp: notDir_def)
qed

text \<open>Nothing lies below a path at which a file was written, before or after.\<close>

lemma alter_below:
  assumes "alter f r p = Inr n" and "fileWriter f" and "strict_prefix p q"
  shows "Stat (Some n) q = None \<and> Stat r q = None"
proof -
  from assms(3) obtain c q' where q: "q = p @ c # q'"
    by (auto simp: strict_prefix_def prefix_def) (metis list.exhaust append_Nil2)
  from alter_at [OF assms(1)] obtain y where y: "f (Stat r p) = Inr y" "Stat (Some n) p = Some y"
    by blast
  from assms(2) y(1) have "\<not> IsDir y" "notDir (Stat r p)" by (auto simp: fileWriter_def)
  then have "notDir (Some y)" "notDir (Stat r p)" by (simp_all add: notDir_def)
  then have "Stat (Some y) (c # q') = None" "Stat (Stat r p) (c # q') = None"
    by (simp_all only: notDir_below)
  with y(2) q show ?thesis by (simp add: Stat_append)
qed

lemma alter_frame:
  assumes "alter f r p = Inr n" and "fileWriter f" and "q \<noteq> p"
  shows "statAttrs (Some n) q = statAttrs r q"
proof (cases "prefix p q")
  case True
  with assms(3) have "strict_prefix p q" by (simp add: strict_prefix_def)
  from alter_below [OF assms(1) assms(2) this] show ?thesis by (simp add: statAttrs_def)
next
  case False
  with assms(1) show ?thesis by (rule alter_other)
qed

lemma alter_fileWriter_wf:
  assumes "wf_root r" and "alter f r p = Inr n" and "fileWriter f"
  shows "wf_node n"
proof (rule alter_wf [OF assms(1,2)])
  show "\<forall>x y. f x = Inr y \<longrightarrow> wf_node y"
  proof (intro allI impI)
    fix x y
    assume "f x = Inr y"
    with assms(3) have "\<not> IsDir y" by (simp add: fileWriter_def)
    then show "wf_node y" by (cases y) auto
  qed
qed

subsection \<open>\<open>RemoveAll\<close>\<close>

lemma RemoveAll_wf: "wf_root r \<Longrightarrow> RemoveAll r p = Inr r' \<Longrightarrow> wf_root r'"
proof (induction r p arbitrary: r' rule: RemoveAll.induct)
  case (1 r)
  then show ?case by (auto simp: wf_root_def)
next
  case (2 c cs)
  then show ?case by (auto simp: wf_root_def)
next
  case (3 m t d c cs)
  then show ?case by simp
next
  case (4 m s t es c cs)
  from "4.prems"(1) have w: "wf_node (Dir m s t es)" by (simp add: wf_root_def)
  show ?case
  proof (cases "RemoveAll (map_of es c) cs")
    case (Inl e)
    with "4.prems"(2) show ?thesis by simp
  next
    case (Inr x)
    show ?thesis
    proof (cases x)
      case None
      from w have "wf_node (Dir m s t (del c es))" by (rule wf_Dir_del)
      with Inr None "4.prems"(2) show ?thesis by (auto simp: wf_root_def)
    next
      case (Some ch)
      from "4.IH" [OF wf_root_child [OF w]] Inr Some have "wf_node ch"
        by (simp add: wf_root_def)
      with w have "wf_node (Dir m s t (ins c ch es))" by (rule wf_Dir_ins)
      with Inr Some "4.prems"(2) show ?thesis by (auto simp: wf_root_def)
    qed
  qed
qed

lemma RemoveAll_statAttrs:
  "RemoveAll r p = Inr r' \<Longrightarrow>
     statAttrs r' q = (if prefix p q then None else statAttrs r q)"
proof (induction r p arbitrary: r' q rule: RemoveAll.induct)
  case (1 r)
  then show ?case by (auto simp: statAttrs_def)
next
  case (2 c cs)
  then show ?case by (auto simp: statAttrs_def)
next
  case (3 m t d c cs)
  then show ?case by simp
next
  case (4 m s t es c cs)
  show ?case
  proof (cases "RemoveAll (map_of es c) cs")
    case (Inl e)
    with "4.prems" show ?thesis by simp
  next
    case (Inr x)
    note IH = "4.IH" [OF Inr]
    show ?thesis
    proof (cases q)
      case Nil
      with Inr "4.prems" show ?thesis by (auto simp: statAttrs_def split: option.splits)
    next
      case (Cons c' q')
      show ?thesis
      proof (cases x)
        case None
        with Inr "4.prems" have r': "r' = Some (Dir m s t (del c es))" by simp
        from IH [of q'] None have "(if prefix cs q' then None else statAttrs (map_of es c) q') = None"
          by (simp add: statAttrs_def)
        with r' Cons show ?thesis by (auto simp: statAttrs_def map_of_del)
      next
        case (Some ch)
        with Inr "4.prems" have r': "r' = Some (Dir m s t (ins c ch es))" by simp
        from IH [of q'] Some
        have "statAttrs (Some ch) q' = (if prefix cs q' then None else statAttrs (map_of es c) q')"
          by simp
        with r' Cons show ?thesis by (auto simp: statAttrs_def map_of_ins)
      qed
    qed
  qed
qed

lemma RemoveAll_ok:
  "(\<And>q m t d. strict_prefix q p \<Longrightarrow> Stat r q \<noteq> Some (File m t d)) \<Longrightarrow> \<exists>r'. RemoveAll r p = Inr r'"
proof (induction r p rule: RemoveAll.induct)
  case (1 r)
  then show ?case by simp
next
  case (2 c cs)
  then show ?case by simp
next
  case (3 m t d c cs)
  from "3.prems" [of "[]" m t d] show ?case by simp
next
  case (4 m s t es c cs)
  have "\<exists>r'. RemoveAll (map_of es c) cs = Inr r'"
  proof (rule "4.IH")
    fix q m' t' d'
    assume "strict_prefix q cs"
    then have "strict_prefix (c # q) (c # cs)" by simp
    from "4.prems" [OF this] show "Stat (map_of es c) q \<noteq> Some (File m' t' d')" by simp
  qed
  then show ?case by (auto split: option.splits)
qed

subsection \<open>The walk over the destination\<close>

lemma statAttrs_File:
  "statAttrs r q = Some (File m t d) \<longleftrightarrow> Stat r q = Some (File m t d)"
proof (cases "Stat r q")
  case None
  then show ?thesis by (simp add: statAttrs_def)
next
  case (Some n)
  then show ?thesis by (cases n) (auto simp: statAttrs_def)
qed

lemma statAttrs_None: "statAttrs r q = None \<longleftrightarrow> Stat r q = None"
  by (simp add: statAttrs_def)

lemma sorted_keys_fresh:
  fixes k :: string
  shows "sorted_wrt (<) (k # map fst es) \<Longrightarrow> map_of es k = None"
  by (rule map_of_sorted_less) simp

text \<open>
  Soundness of the walk: a listed path exists, is not valid, and every path strictly
  between the start of the walk and it is valid.
\<close>

lemma scan_sound:
  "x \<in> set (scanNode V p n) \<Longrightarrow> wf_node n \<Longrightarrow>
     \<exists>q. x = p @ q \<and> Stat (Some n) q \<noteq> None \<and> x \<notin> V
         \<and> (\<forall>q'. strict_prefix q' q \<longrightarrow> p @ q' \<in> V)"
  "x \<in> set (scanEntries V p es) \<Longrightarrow> sorted_wrt (<) (map fst es) \<Longrightarrow> wf_entries es \<Longrightarrow>
     \<exists>k q. x = p @ k # q \<and> Stat (map_of es k) q \<noteq> None \<and> x \<notin> V
         \<and> (\<forall>q'. strict_prefix q' q \<longrightarrow> p @ k # q' \<in> V)"
proof (induction V p n and V p es arbitrary: x and x rule: scanNode_scanEntries.induct)
  case (1 V p m t d)
  then have "x = p @ [] \<and> Stat (Some (File m t d)) [] \<noteq> None \<and> x \<notin> V
         \<and> (\<forall>q'. strict_prefix q' [] \<longrightarrow> p @ q' \<in> V)"
    by (auto split: if_splits)
  then show ?case by blast
next
  case (2 V p m s t es)
  show ?case
  proof (cases "p \<in> V")
    case False
    with "2.prems" have "x = p @ [] \<and> Stat (Some (Dir m s t es)) [] \<noteq> None \<and> x \<notin> V
         \<and> (\<forall>q'. strict_prefix q' [] \<longrightarrow> p @ q' \<in> V)"
      by auto
    then show ?thesis by blast
  next
    case True
    with "2.prems" have x: "x \<in> set (scanEntries V p es)"
      and w: "sorted_wrt (<) (map fst es)" "wf_entries es" by auto
    from "2.IH" [OF _ x w] True
    obtain k q where kq: "x = p @ k # q" "Stat (map_of es k) q \<noteq> None" "x \<notin> V"
      "\<forall>q'. strict_prefix q' q \<longrightarrow> p @ k # q' \<in> V" by auto
    have "\<forall>q'. strict_prefix q' (k # q) \<longrightarrow> p @ q' \<in> V"
    proof (intro allI impI)
      fix q'
      assume sp: "strict_prefix q' (k # q)"
      show "p @ q' \<in> V"
      proof (cases q')
        case Nil
        with True show ?thesis by simp
      next
        case (Cons c r)
        with sp have "c = k" "strict_prefix r q" by auto
        with kq(4) Cons show ?thesis by simp
      qed
    qed
    with kq have "x = p @ (k # q) \<and> Stat (Some (Dir m s t es)) (k # q) \<noteq> None \<and> x \<notin> V
         \<and> (\<forall>q'. strict_prefix q' (k # q) \<longrightarrow> p @ q' \<in> V)"
      by simp
    then show ?thesis by blast
  qed
next
  case (3 V p)
  then show ?case by simp
next
  case (4 V p e es)
  obtain k0 n0 where e: "e = (k0, n0)" by (cases e)
  from "4.prems"(2) e have fresh: "map_of es k0 = None"
    by (simp add: sorted_keys_fresh)
  from "4.prems"(2,3) e have w: "wf_node n0" "sorted_wrt (<) (map fst es)" "wf_entries es"
    by auto
  from "4.prems"(1) consider "x \<in> set (scanNode V (p @ [fst e]) (snd e))"
    | "x \<in> set (scanEntries V p es)" by auto
  then show ?case
  proof cases
    case 1
    from "4.IH"(1) [OF 1] w(1) e
    obtain q where "x = (p @ [k0]) @ q" "Stat (Some n0) q \<noteq> None" "x \<notin> V"
      "\<forall>q'. strict_prefix q' q \<longrightarrow> (p @ [k0]) @ q' \<in> V" by auto
    with e have "x = p @ k0 # q \<and> Stat (map_of (e # es) k0) q \<noteq> None \<and> x \<notin> V
         \<and> (\<forall>q'. strict_prefix q' q \<longrightarrow> p @ k0 # q' \<in> V)"
      by simp
    then show ?thesis by blast
  next
    case 2
    from "4.IH"(2) [OF 2 w(2,3)]
    obtain k q where kq: "x = p @ k # q" "Stat (map_of es k) q \<noteq> None" "x \<notin> V"
      "\<forall>q'. strict_prefix q' q \<longrightarrow> p @ k # q' \<in> V" by auto
    from kq(2) fresh have "k \<noteq> k0" by auto
    with kq e have "x = p @ k # q \<and> Stat (map_of (e # es) k) q \<noteq> None \<and> x \<notin> V
         \<and> (\<forall>q'. strict_prefix q' q \<longrightarrow> p @ k # q' \<in> V)"
      by simp
    then show ?thesis by blast
  qed
qed

text \<open>
  Completeness of the walk: an existing path that is not valid, all paths above it and
  below the start of the walk being valid, is listed.
\<close>

lemma scan_complete:
  "Stat (Some n) q \<noteq> None \<Longrightarrow> p @ q \<notin> V \<Longrightarrow> (\<forall>q'. strict_prefix q' q \<longrightarrow> p @ q' \<in> V)
     \<Longrightarrow> p @ q \<in> set (scanNode V p n)"
  "Stat (map_of es k) q \<noteq> None \<Longrightarrow> p @ k # q \<notin> V
     \<Longrightarrow> (\<forall>q'. strict_prefix q' q \<longrightarrow> p @ k # q' \<in> V)
     \<Longrightarrow> p @ k # q \<in> set (scanEntries V p es)"
proof (induction V p n and V p es arbitrary: q and k q rule: scanNode_scanEntries.induct)
  case (1 V p m t d)
  from "1.prems"(1) have "q = []" by (cases q) auto
  with "1.prems" show ?case by simp
next
  case (2 V p m s t es)
  show ?case
  proof (cases q)
    case Nil
    with "2.prems" show ?thesis by simp
  next
    case (Cons k r)
    from "2.prems"(3) [rule_format, of "[]"] Cons have pV: "p \<in> V" by simp
    from "2.prems"(3) Cons have "\<forall>q'. strict_prefix q' r \<longrightarrow> p @ k # q' \<in> V"
      by (metis Cons_prefix_Cons strict_prefix_def list.inject)
    with "2.IH" [OF _, of k r] pV "2.prems"(1,2) Cons show ?thesis by simp
  qed
next
  case (3 V p)
  then show ?case by simp
next
  case (4 V p e es)
  obtain k0 n0 where e: "e = (k0, n0)" by (cases e)
  show ?case
  proof (cases "k = k0")
    case True
    from "4.prems" e True have a: "Stat (Some n0) q \<noteq> None" "(p @ [k0]) @ q \<notin> V"
      "\<forall>q'. strict_prefix q' q \<longrightarrow> (p @ [k0]) @ q' \<in> V" by auto
    from "4.IH"(1) [of q] a e have "(p @ [k0]) @ q \<in> set (scanNode V (p @ [k0]) n0)"
      by simp
    with e True show ?thesis by simp
  next
    case False
    with "4.prems" e have "Stat (map_of es k) q \<noteq> None" by simp
    from "4.IH"(2) [OF this "4.prems"(2,3)] show ?thesis by simp
  qed
qed

lemma scan_distinct:
  "wf_node n \<Longrightarrow> distinct (scanNode V p n)"
  "sorted_wrt (<) (map fst es) \<Longrightarrow> wf_entries es \<Longrightarrow> distinct (scanEntries V p es)"
proof (induction V p n and V p es rule: scanNode_scanEntries.induct)
  case (1 V p m t d)
  show ?case by simp
next
  case (2 V p m s t es)
  then show ?case by simp
next
  case (3 V p)
  show ?case by simp
next
  case (4 V p e es)
  obtain k0 n0 where e: "e = (k0, n0)" by (cases e)
  from "4.prems" e have w: "wf_node n0" "sorted_wrt (<) (map fst es)" "wf_entries es"
    by auto
  from "4.prems"(1) e have fresh: "map_of es k0 = None"
    by (simp add: sorted_keys_fresh)
  have "set (scanNode V (p @ [k0]) n0) \<inter> set (scanEntries V p es) = {}"
  proof (rule ccontr)
    assume "set (scanNode V (p @ [k0]) n0) \<inter> set (scanEntries V p es) \<noteq> {}"
    then obtain x where x1: "x \<in> set (scanNode V (p @ [k0]) n0)"
      and x2: "x \<in> set (scanEntries V p es)" by blast
    from scan_sound(1) [OF x1 w(1)] obtain q where q: "x = (p @ [k0]) @ q" by blast
    from scan_sound(2) [OF x2 w(2,3)] obtain k q' where k: "x = p @ k # q'"
      "Stat (map_of es k) q' \<noteq> None" by blast
    from q k(1) have "k = k0" by simp
    with k(2) fresh show False by simp
  qed
  with "4.IH" w e show ?case by simp
qed

lemma scan_antichain:
  assumes "wf_node n" and "x \<in> set (scanNode V p n)" and "y \<in> set (scanNode V p n)"
  shows "\<not> strict_prefix x y"
proof
  assume sp: "strict_prefix x y"
  from scan_sound(1) [OF assms(2,1)] obtain q where q: "x = p @ q" "x \<notin> V" by blast
  from scan_sound(1) [OF assms(3,1)] obtain r where r: "y = p @ r"
    "\<forall>q'. strict_prefix q' r \<longrightarrow> p @ q' \<in> V" by blast
  from sp q(1) r(1) have "strict_prefix q r" by (simp add: strict_prefix_def)
  with r(2) q show False by simp
qed

subsection \<open>Removal\<close>

lemma removeLoop_ok:
  "(\<And>p q m t d. p \<in> set L \<Longrightarrow> strict_prefix q p \<Longrightarrow> Stat (tree w) q \<noteq> Some (File m t d)) \<Longrightarrow>
     \<exists>w'. removeLoop L w = (None, w') \<and> copied w' = copied w
       \<and> (wf_root (tree w) \<longrightarrow> wf_root (tree w'))
       \<and> (\<forall>x. statAttrs (tree w') x
                = (if \<exists>q \<in> set L. prefix q x then None else statAttrs (tree w) x))"
proof (induction L arbitrary: w)
  case Nil
  show ?case by simp
next
  case (Cons p ps)
  have "\<exists>r'. RemoveAll (tree w) p = Inr r'"
  proof (rule RemoveAll_ok)
    fix q m t d
    assume "strict_prefix q p"
    with Cons.prems [of p q m t d] show "Stat (tree w) q \<noteq> Some (File m t d)" by simp
  qed
  then obtain r' where r': "RemoveAll (tree w) p = Inr r'" by blast
  let ?w1 = "w\<lparr>tree := r'\<rparr>"
  note st = RemoveAll_statAttrs [OF r']
  have "\<exists>w'. removeLoop ps ?w1 = (None, w') \<and> copied w' = copied ?w1
       \<and> (wf_root (tree ?w1) \<longrightarrow> wf_root (tree w'))
       \<and> (\<forall>x. statAttrs (tree w') x
                = (if \<exists>q \<in> set ps. prefix q x then None else statAttrs (tree ?w1) x))"
  proof (rule Cons.IH)
    fix p' q m t d
    assume p': "p' \<in> set ps" and sp: "strict_prefix q p'"
    show "Stat (tree ?w1) q \<noteq> Some (File m t d)"
    proof
      assume "Stat (tree ?w1) q = Some (File m t d)"
      then have "statAttrs r' q = Some (File m t d)" by (simp add: statAttrs_File)
      with st [of q] have "statAttrs (tree w) q = Some (File m t d)"
        by (auto split: if_splits)
      then have "Stat (tree w) q = Some (File m t d)" by (simp add: statAttrs_File)
      with Cons.prems [of p' q m t d] p' sp show False by simp
    qed
  qed
  then obtain w' where w': "removeLoop ps ?w1 = (None, w')" "copied w' = copied w"
    "wf_root r' \<longrightarrow> wf_root (tree w')"
    "\<forall>x. statAttrs (tree w') x
                = (if \<exists>q \<in> set ps. prefix q x then None else statAttrs r' x)"
    by auto
  have "wf_root (tree w) \<longrightarrow> wf_root (tree w')"
    using w'(3) RemoveAll_wf [OF _ r'] by blast
  moreover have "\<forall>x. statAttrs (tree w') x
                = (if \<exists>q \<in> set (p # ps). prefix q x then None else statAttrs (tree w) x)"
    using w'(4) st by auto
  ultimately show ?case using r' w'(1,2) by simp
qed

lemma top_invalid_prefix:
  "p @ x \<notin> V \<Longrightarrow> x \<noteq> [] \<Longrightarrow>
     \<exists>k q. prefix (k # q) x \<and> p @ k # q \<notin> V \<and> (\<forall>q'. strict_prefix q' q \<longrightarrow> p @ k # q' \<in> V)"
proof (induction x arbitrary: p)
  case Nil
  then show ?case by simp
next
  case (Cons c y)
  show ?case
  proof (cases "p @ [c] \<in> V")
    case False
    then have "prefix (c # []) (c # y) \<and> p @ c # [] \<notin> V
        \<and> (\<forall>q'. strict_prefix q' [] \<longrightarrow> p @ c # q' \<in> V)" by simp
    then show ?thesis by blast
  next
    case True
    with Cons.prems(1) have y: "y \<noteq> []" by auto
    from Cons.prems(1) have "(p @ [c]) @ y \<notin> V" by simp
    from Cons.IH [OF this y] obtain k q where kq: "prefix (k # q) y" "(p @ [c]) @ k # q \<notin> V"
      "\<forall>q'. strict_prefix q' q \<longrightarrow> (p @ [c]) @ k # q' \<in> V" by blast
    have "\<forall>q'. strict_prefix q' (k # q) \<longrightarrow> p @ c # q' \<in> V"
    proof (intro allI impI)
      fix q'
      assume sp: "strict_prefix q' (k # q)"
      show "p @ c # q' \<in> V"
      proof (cases q')
        case Nil
        with True show ?thesis by simp
      next
        case (Cons a r)
        with sp have "a = k" "strict_prefix r q" by auto
        with kq(3) Cons show ?thesis by simp
      qed
    qed
    with kq(1,2) have "prefix (c # k # q) (c # y) \<and> p @ c # k # q \<notin> V
        \<and> (\<forall>q'. strict_prefix q' (k # q) \<longrightarrow> p @ c # q' \<in> V)" by simp
    then show ?thesis by blast
  qed
qed

lemma cleanOrphans_ok:
  assumes wf: "wf_root (tree w)"
    and closed: "\<And>v q. v \<in> V \<Longrightarrow> prefix q v \<Longrightarrow> q \<noteq> [] \<Longrightarrow> q \<in> V"
  shows "\<exists>w'. cleanOrphans V w = (None, w') \<and> copied w' = copied w \<and> wf_root (tree w')
      \<and> (\<forall>x. x \<noteq> [] \<longrightarrow> x \<notin> V \<longrightarrow> Stat (tree w') x = None)
      \<and> (\<forall>x \<in> V. statAttrs (tree w') x = statAttrs (tree w) x)
      \<and> statAttrs (tree w') [] = statAttrs (tree w) []"
proof (cases "tree w")
  case None
  then show ?thesis by (simp add: cleanOrphans_def wf_root_def)
next
  case (Some n)
  show ?thesis
  proof (cases n)
    case (File m t d)
    with Some wf show ?thesis by (simp add: cleanOrphans_def)
  next
    case (Dir m s t es)
    let ?L = "scanEntries V [] es"
    from wf Some Dir have w: "sorted_wrt (<) (map fst es)" "wf_entries es"
      by (simp_all add: wf_root_def)
    have sound: "\<exists>k q. x = k # q \<and> Stat (tree w) x \<noteq> None \<and> x \<notin> V" if "x \<in> set ?L" for x
      using scan_sound(2) [OF that w] Some Dir by auto
    have "\<exists>w'. removeLoop ?L w = (None, w') \<and> copied w' = copied w
       \<and> (wf_root (tree w) \<longrightarrow> wf_root (tree w'))
       \<and> (\<forall>x. statAttrs (tree w') x
                = (if \<exists>q \<in> set ?L. prefix q x then None else statAttrs (tree w) x))"
    proof (rule removeLoop_ok)
      fix p q m' t' d'
      assume "p \<in> set ?L" and sp: "strict_prefix q p"
      from sound [OF this(1)] have "Stat (tree w) p \<noteq> None" by blast
      from Stat_strict_prefix_Dir [OF this sp]
      show "Stat (tree w) q \<noteq> Some (File m' t' d')" by auto
    qed
    then obtain w' where w': "removeLoop ?L w = (None, w')" "copied w' = copied w"
      "wf_root (tree w')"
      "\<And>x. statAttrs (tree w') x
                = (if \<exists>q \<in> set ?L. prefix q x then None else statAttrs (tree w) x)"
      using wf by blast
    have gone: "Stat (tree w') x = None" if x: "x \<noteq> []" "x \<notin> V" for x
    proof (rule ccontr)
      assume "Stat (tree w') x \<noteq> None"
      then have a: "statAttrs (tree w') x \<noteq> None" by (simp add: statAttrs_None)
      with w'(4) [of x] have nl: "\<not> (\<exists>q \<in> set ?L. prefix q x)"
        by (auto split: if_splits)
      with w'(4) [of x] a have "statAttrs (tree w) x \<noteq> None" by simp
      then have ex: "Stat (tree w) x \<noteq> None" by (simp add: statAttrs_None)
      from top_invalid_prefix [of "[]" x V] x
      obtain k q where kq: "prefix (k # q) x" "k # q \<notin> V"
        "\<forall>q'. strict_prefix q' q \<longrightarrow> k # q' \<in> V" by auto
      from Stat_prefix_exists [OF ex kq(1)] Some Dir
      have "Stat (map_of es k) q \<noteq> None" by simp
      from scan_complete(2) [of es k q "[]" V, OF this] kq(2,3)
      have "k # q \<in> set ?L" by simp
      with kq(1) nl show False by blast
    qed
    have kept: "statAttrs (tree w') x = statAttrs (tree w) x" if "x \<in> V" for x
    proof -
      have "\<not> (\<exists>q \<in> set ?L. prefix q x)"
      proof
        assume "\<exists>q \<in> set ?L. prefix q x"
        then obtain q where q: "q \<in> set ?L" "prefix q x" by blast
        from sound [OF q(1)] have "q \<noteq> []" "q \<notin> V" by auto
        with closed [OF that q(2)] show False by simp
      qed
      with w'(4) [of x] show ?thesis by simp
    qed
    have root: "statAttrs (tree w') [] = statAttrs (tree w) []"
    proof -
      have "\<not> (\<exists>q \<in> set ?L. prefix q [])"
        using sound by fastforce
      with w'(4) [of "[]"] show ?thesis by simp
    qed
    from w'(1,2,3) gone kept root Some Dir show ?thesis
      by (simp add: cleanOrphans_def)
  qed
qed

lemma cleanOrphans_noop:
  assumes wf: "wf_root (tree w)"
    and all: "\<And>x. x \<noteq> [] \<Longrightarrow> Stat (tree w) x \<noteq> None \<Longrightarrow> x \<in> V"
  shows "cleanOrphans V w = (None, w)"
proof (cases "tree w")
  case None
  then show ?thesis by (simp add: cleanOrphans_def)
next
  case (Some n)
  show ?thesis
  proof (cases n)
    case (File m t d)
    with Some show ?thesis by (simp add: cleanOrphans_def)
  next
    case (Dir m s t es)
    from wf Some Dir have w: "sorted_wrt (<) (map fst es)" "wf_entries es"
      by (simp_all add: wf_root_def)
    have "scanEntries V [] es = []"
    proof (cases "scanEntries V [] es")
      case Nil
      then show ?thesis .
    next
      case (Cons x xs)
      then have x: "x \<in> set (scanEntries V [] es)" by simp
      from scan_sound(2) [OF x w] Some Dir
      obtain k q where "x = k # q" "Stat (tree w) x \<noteq> None" "x \<notin> V" by auto
      with all [of x] show ?thesis by simp
    qed
    with Some Dir show ?thesis by (simp add: cleanOrphans_def)
  qed
qed

subsection \<open>\<open>copyFile\<close>\<close>

lemma attrs_simps [simp]:
  "Size (attrs x) = Size x" "ModTime (attrs x) = ModTime x" "IsDir (attrs x) = IsDir x"
  by (cases x; simp)+

lemma world_tree_same [simp]: "w\<lparr>tree := tree w\<rparr> = w"
  by simp

lemma MkdirAll_parent_existing:
  assumes "wf_root r" and "Stat r dest \<noteq> None" and "dest \<noteq> []"
  shows "\<exists>n. r = Some n \<and> MkdirAll h r (butlast dest) perm = Inr n"
proof -
  from assms(3) have "strict_prefix (butlast dest) dest"
    by (metis append_butlast_last_id strict_prefixI' )
  from Stat_strict_prefix_Dir [OF assms(2) this]
  obtain m s t es where "Stat r (butlast dest) = Some (Dir m s t es)" by blast
  from MkdirAll_existing [OF assms(1) this] show ?thesis by simp
qed

text \<open>The skip: an entry of the source's size and time at the destination, and nothing changes.\<close>

lemma copyFile_skip:
  assumes "wf_root (tree w)" and "Stat (tree w) dest = Some x"
    and "Size x = Size info" and "ModTime x = ModTime info"
  shows "copyFile h (Some info) dest w = (None, w)"
proof (cases "dest = []")
  case True
  with assms show ?thesis by (simp add: copyFile_def)
next
  case False
  from assms(2) have "Stat (tree w) dest \<noteq> None" by simp
  from MkdirAll_parent_existing [OF assms(1) this False, of h 493]
  obtain n where n: "tree w = Some n" "MkdirAll h (tree w) (butlast dest) 493 = Inr n"
    by blast
  from n(1) have "w\<lparr>tree := Some n\<rparr> = w" by (metis world_tree_same)
  with False n assms(2,3,4) show ?thesis by (simp add: copyFile_def)
qed

text \<open>
  What \<open>copyFile\<close> does to the tree, whatever it returns: at most a \<open>MkdirAll\<close> of the
  parent, then at most one write of a file at the destination.
\<close>

lemma copyFile_steps:
  assumes "copyFile h src dest w = (e, w')"
  shows "\<exists>t1. (t1 = tree w \<or> (\<exists>n. MkdirAll h (tree w) (butlast dest) 493 = Inr n \<and> t1 = Some n))
      \<and> (tree w' = t1
          \<or> (\<exists>f t2. fileWriter f \<and> alter f t1 dest = Inr t2 \<and> tree w' = Some t2))"
proof (cases src)
  case None
  with assms show ?thesis by (auto simp: copyFile_def)
next
  case (Some info)
  define r1 where "r1 = (if dest = [] then Inr (tree w)
                 else map_sum id Some (MkdirAll h (tree w) (butlast dest) 493))"
  show ?thesis
  proof (cases r1)
    case (Inl err)
    with assms Some have "w' = w" by (simp add: copyFile_def r1_def [symmetric])
    then show ?thesis by auto
  next
    case (Inr t1)
    then have t1: "t1 = tree w \<or> (\<exists>n. MkdirAll h (tree w) (butlast dest) 493 = Inr n \<and> t1 = Some n)"
      by (cases "MkdirAll h (tree w) (butlast dest) 493") (auto simp: r1_def split: if_splits)
    from assms Some Inr
    have "tree w' = t1 \<or> (\<exists>f t2. fileWriter f \<and> alter f t1 dest = Inr t2 \<and> tree w' = Some t2)"
      using fileWriter_writeFile fileWriter_openTrunc
      by (auto simp: copyFile_def r1_def [symmetric] Let_def
          split: if_splits sum.splits node.splits)
    with t1 show ?thesis by blast
  qed
qed

lemma copyFile_wf:
  assumes "copyFile h src dest w = (e, w')" and "wf_root (tree w)"
  shows "wf_root (tree w')"
proof -
  from copyFile_steps [OF assms(1)] obtain t1 where
    t1: "t1 = tree w \<or> (\<exists>n. MkdirAll h (tree w) (butlast dest) 493 = Inr n \<and> t1 = Some n)"
    and t2: "tree w' = t1 \<or> (\<exists>f t2. fileWriter f \<and> alter f t1 dest = Inr t2 \<and> tree w' = Some t2)"
    by blast
  from t1 assms(2) have w1: "wf_root t1"
    by (auto simp: wf_root_def dest: MkdirAll_wf [rotated])
  with t2 show ?thesis
    by (auto simp: wf_root_def dest: alter_fileWriter_wf [rotated])
qed

lemma copyFile_frame:
  assumes "copyFile h src dest w = (e, w')" and "\<not> prefix q dest"
  shows "statAttrs (tree w') q = statAttrs (tree w) q"
proof -
  from copyFile_steps [OF assms(1)] obtain t1 where
    t1: "t1 = tree w \<or> (\<exists>n. MkdirAll h (tree w) (butlast dest) 493 = Inr n \<and> t1 = Some n)"
    and t2: "tree w' = t1 \<or> (\<exists>f t2. fileWriter f \<and> alter f t1 dest = Inr t2 \<and> tree w' = Some t2)"
    by blast
  from assms(2) have nb: "\<not> prefix q (butlast dest)"
    by (metis prefix_order.trans prefixeq_butlast)
  from assms(2) have ne: "q \<noteq> dest" by auto
  from t1 nb have s1: "statAttrs t1 q = statAttrs (tree w) q"
    by (auto simp: MkdirAll_statAttrs)
  from t2 ne have "statAttrs (tree w') q = statAttrs t1 q"
    by (auto simp: alter_frame)
  with s1 show ?thesis by simp
qed

lemma copyFile_keeps_dirs:
  assumes "copyFile h src dest w = (e, w')" and "statAttrs (tree w) q = Some (Dir m s t [])"
  shows "statAttrs (tree w') q = Some (Dir m s t [])"
proof -
  from copyFile_steps [OF assms(1)] obtain t1 where
    t1: "t1 = tree w \<or> (\<exists>n. MkdirAll h (tree w) (butlast dest) 493 = Inr n \<and> t1 = Some n)"
    and t2: "tree w' = t1 \<or> (\<exists>f t2. fileWriter f \<and> alter f t1 dest = Inr t2 \<and> tree w' = Some t2)"
    by blast
  from assms(2) have "Stat (tree w) q \<noteq> None" by (auto simp: statAttrs_def)
  with t1 assms(2) have s1: "statAttrs t1 q = Some (Dir m s t [])"
    by (auto simp: MkdirAll_statAttrs)
  show ?thesis
  proof (cases "tree w' = t1")
    case True
    with s1 show ?thesis by simp
  next
    case False
    with t2 obtain f t2 where f: "fileWriter f" "alter f t1 dest = Inr t2" "tree w' = Some t2"
      by blast
    have "q \<noteq> dest"
    proof
      assume "q = dest"
      from alter_at [OF f(2)] obtain y where "f (Stat t1 dest) = Inr y" by blast
      with f(1) have "notDir (Stat t1 dest)"
        by (auto simp: fileWriter_def)
      moreover from s1 \<open>q = dest\<close> obtain es where "Stat t1 dest = Some (Dir m s t es)"
        by (auto simp: statAttrs_def elim: attrs.elims)
      ultimately show False by (simp add: notDir_def)
    qed
    from alter_frame [OF f(2) f(1) this] f(3) s1 show ?thesis by simp
  qed
qed

lemma copyFile_settles:
  assumes "copyFile h (Some (File m t d)) dest w = (None, w')"
  shows "\<exists>x. statAttrs (tree w') dest = Some x \<and> Size x = length d \<and> ModTime x = t"
proof -
  define r1 where "r1 = (if dest = [] then Inr (tree w)
                 else map_sum id Some (MkdirAll h (tree w) (butlast dest) 493))"
  show ?thesis
  proof (cases r1)
    case (Inl err)
    with assms show ?thesis by (simp add: copyFile_def r1_def [symmetric])
  next
    case (Inr t1)
    show ?thesis
    proof (cases "case Stat t1 dest of None \<Rightarrow> False
                   | Some destInfo \<Rightarrow> Size destInfo = Size (File m t d)
                       \<and> ModTime destInfo = ModTime (File m t d)")
      case True
      with assms Inr have "tree w' = t1"
        by (auto simp: copyFile_def r1_def [symmetric] Let_def simp del: Size.simps ModTime.simps)
      with True show ?thesis by (auto simp: statAttrs_def split: option.splits)
    next
      case False
      with assms Inr obtain t2 where t2: "alter (writeFile m t d) t1 dest = Inr t2"
        "tree w' = Some t2"
        by (auto simp: copyFile_def r1_def [symmetric] Let_def simp del: Size.simps ModTime.simps
            split: sum.splits)
      from alter_at [OF t2(1)] obtain y where y: "writeFile m t d (Stat t1 dest) = Inr y"
        "Stat (Some t2) dest = Some y" by blast
      from writeFile_result [OF y(1)] y(2) t2(2) show ?thesis
        by (auto simp: statAttrs_def)
    qed
  qed
qed

subsection \<open>The forward phase\<close>

lemma valid_form:
  "v \<in> validNode pats rel n \<Longrightarrow> prefix rel v"
  "v \<in> validEntries pats rel es \<Longrightarrow> \<exists>k q. v = rel @ k # q \<and> k \<in> fst ` set es"
proof (induction pats rel n and pats rel es arbitrary: v and v rule: validNode_validEntries.induct)
  case (1 pats rel m t d)
  then show ?case by (auto split: if_splits)
next
  case (2 pats rel m s t es)
  then show ?case by (fastforce split: if_splits)
next
  case (3 pats rel)
  then show ?case by simp
next
  case (4 pats rel e es)
  from "4.prems" consider "v \<in> validNode pats (rel @ [fst e]) (snd e)"
    | "v \<in> validEntries pats rel es" by auto
  then show ?case
  proof cases
    case 1
    from "4.IH"(1) [OF 1] obtain q where "v = (rel @ [fst e]) @ q" by (auto simp: prefix_def)
    then have "v = rel @ fst e # q \<and> fst e \<in> fst ` set (e # es)" by simp
    then show ?thesis by blast
  next
    case 2
    from "4.IH"(2) [OF 2] show ?thesis by auto
  qed
qed

text \<open>The recorded set is closed under going up, as far as the start of the walk.\<close>

lemma valid_closed:
  "v \<in> validNode pats rel n \<Longrightarrow> prefix q v \<Longrightarrow> prefix rel q \<Longrightarrow> q \<in> validNode pats rel n"
  "v \<in> validEntries pats rel es \<Longrightarrow> prefix q v \<Longrightarrow> strict_prefix rel q
     \<Longrightarrow> q \<in> validEntries pats rel es"
proof (induction pats rel n and pats rel es arbitrary: v q and v q rule: validNode_validEntries.induct)
  case (1 pats rel m t d)
  then show ?case by (auto split: if_splits)
next
  case (2 pats rel m s t es)
  from "2.prems"(1) have ne: "\<not> shouldExclude (Join rel ''/'') pats True"
    by (auto split: if_splits)
  show ?case
  proof (cases "q = rel")
    case True
    with ne show ?thesis by simp
  next
    case False
    with "2.prems"(3) have sp: "strict_prefix rel q" by (simp add: strict_prefix_def)
    have "v \<noteq> rel"
    proof
      assume "v = rel"
      with "2.prems"(2) have "length q \<le> length rel" by (simp add: prefix_length_le)
      moreover from sp have "length rel < length q" by (rule prefix_length_less)
      ultimately show False by simp
    qed
    with "2.prems"(1) ne have "v \<in> validEntries pats rel es" by simp
    from "2.IH" [OF ne this "2.prems"(2) sp] ne show ?thesis by simp
  qed
next
  case (3 pats rel)
  then show ?case by simp
next
  case (4 pats rel e es)
  from "4.prems"(1) consider "v \<in> validNode pats (rel @ [fst e]) (snd e)"
    | "v \<in> validEntries pats rel es" by auto
  then show ?case
  proof cases
    case 1
    from valid_form(1) [OF 1] obtain r where v: "v = rel @ fst e # r" by (auto simp: prefix_def)
    from "4.prems"(3) obtain c q' where q: "q = rel @ c # q'"
      by (auto simp: strict_prefix_def prefix_def) (metis list.exhaust append_Nil2)
    with "4.prems"(2) v have "c = fst e" by simp
    with q have "prefix (rel @ [fst e]) q" by simp
    from "4.IH"(1) [OF 1 "4.prems"(2) this] show ?thesis by simp
  next
    case 2
    from "4.IH"(2) [OF 2 "4.prems"(2,3)] show ?thesis by simp
  qed
qed

text \<open>
  Every entry on the way to a recorded path exists in the source and is not excluded.
\<close>

lemma valid_not_excluded:
  "rel @ q \<in> validNode pats rel n \<Longrightarrow> wf_node n \<Longrightarrow> prefix q' q \<Longrightarrow>
     \<exists>x. Stat (Some n) q' = Some x \<and> \<not> shouldExclude (Join (rel @ q') ''/'') pats (IsDir x)"
  "rel @ k # q \<in> validEntries pats rel es \<Longrightarrow> sorted_wrt (<) (map fst es) \<Longrightarrow> wf_entries es
     \<Longrightarrow> prefix q' q \<Longrightarrow>
     \<exists>x. Stat (map_of es k) q' = Some x
        \<and> \<not> shouldExclude (Join (rel @ k # q') ''/'') pats (IsDir x)"
proof (induction pats rel n and pats rel es arbitrary: q q' and k q q'
    rule: validNode_validEntries.induct)
  case (1 pats rel m t d)
  then show ?case by (auto split: if_splits)
next
  case (2 pats rel m s t es)
  from "2.prems"(1) have ne: "\<not> shouldExclude (Join rel ''/'') pats True"
    by (auto split: if_splits)
  from "2.prems"(2) have w: "sorted_wrt (<) (map fst es)" "wf_entries es" by simp_all
  show ?case
  proof (cases q')
    case Nil
    with ne show ?thesis by simp
  next
    case (Cons c r')
    with "2.prems"(3) obtain r where q: "q = c # r" "prefix r' r" by (cases q) auto
    with "2.prems"(1) ne have "rel @ c # r \<in> validEntries pats rel es" by simp
    from "2.IH" [OF ne this w q(2)] Cons show ?thesis by simp
  qed
next
  case (3 pats rel)
  then show ?case by simp
next
  case (4 pats rel e es)
  obtain k0 n0 where e: "e = (k0, n0)" by (cases e)
  from "4.prems"(2) e have fresh: "k0 \<notin> fst ` set es" by auto
  from "4.prems"(2,3) e have w: "wf_node n0" "sorted_wrt (<) (map fst es)" "wf_entries es"
    by auto
  from "4.prems"(1) consider "rel @ k # q \<in> validNode pats (rel @ [fst e]) (snd e)"
    | "rel @ k # q \<in> validEntries pats rel es" by auto
  then show ?case
  proof cases
    case 1
    from valid_form(1) [OF 1] e have k: "k = k0" by (auto simp: prefix_def)
    with 1 e have "(rel @ [k0]) @ q \<in> validNode pats (rel @ [k0]) n0" by simp
    from "4.IH"(1) [of q q'] this w(1) "4.prems"(4) e k show ?thesis by simp
  next
    case 2
    from valid_form(2) [OF 2] fresh have "k \<noteq> k0" by auto
    with "4.IH"(2) [OF 2 w(2,3) "4.prems"(4)] e show ?thesis by simp
  qed
qed

text \<open>What the walk records: a part of the recorded set, all of it when it completes.\<close>

lemma sync_valid:
  "syncNode h pats rel n st = (e, w', V') \<Longrightarrow>
     snd st \<subseteq> V' \<and> V' \<subseteq> snd st \<union> validNode pats rel n
     \<and> (e = None \<longrightarrow> V' = snd st \<union> validNode pats rel n)"
  "syncEntries h pats rel es st = (e, w', V') \<Longrightarrow>
     snd st \<subseteq> V' \<and> V' \<subseteq> snd st \<union> validEntries pats rel es
     \<and> (e = None \<longrightarrow> V' = snd st \<union> validEntries pats rel es)"
proof (induction h pats rel n st and h pats rel es st arbitrary: e w' V' and e w' V'
    rule: syncNode_syncEntries.induct)
  case (1 h pats rel m t d st)
  then show ?case by (auto split: if_splits prod.splits)
next
  case (2 h pats rel m s t es st)
  show ?case
  proof (cases "shouldExclude (Join rel ''/'') pats True")
    case True
    with "2.prems" show ?thesis by auto
  next
    case False
    show ?thesis
    proof (cases "MkdirAll h (tree (fst st)) rel m")
      case (Inl err)
      with False "2.prems" show ?thesis by auto
    next
      case (Inr t1)
      with False "2.prems"
      have "syncEntries h pats rel es ((fst st)\<lparr>tree := Some t1\<rparr>, insert rel (snd st)) = (e, w', V')"
        by simp
      from "2.IH" [OF False Inr this] False show ?thesis by auto
    qed
  qed
next
  case (3 h pats rel st)
  then show ?case by auto
next
  case (4 h pats rel e0 es st)
  obtain e1 w1 V1 where r1: "syncNode h pats (rel @ [fst e0]) (snd e0) st = (e1, w1, V1)"
    by (metis prod_cases3)
  note IH1 = "4.IH"(1) [OF r1]
  show ?case
  proof (cases e1)
    case (Some err)
    with r1 "4.prems" have "e = Some err" "V' = V1" by auto
    with IH1 show ?thesis by auto
  next
    case None
    with r1 "4.prems" have "syncEntries h pats rel es (w1, V1) = (e, w', V')" by simp
    from "4.IH"(2) [OF r1 [symmetric] None this] IH1 None show ?thesis by auto
  qed
qed

lemma sync_wf:
  "syncNode h pats rel n st = (e, w', V') \<Longrightarrow> wf_root (tree (fst st)) \<Longrightarrow> wf_root (tree w')"
  "syncEntries h pats rel es st = (e, w', V') \<Longrightarrow> wf_root (tree (fst st)) \<Longrightarrow> wf_root (tree w')"
proof (induction h pats rel n st and h pats rel es st arbitrary: e w' V' and e w' V'
    rule: syncNode_syncEntries.induct)
  case (1 h pats rel m t d st)
  then show ?case by (auto split: if_splits prod.splits dest: copyFile_wf)
next
  case (2 h pats rel m s t es st)
  show ?case
  proof (cases "shouldExclude (Join rel ''/'') pats True")
    case True
    with "2.prems" show ?thesis by auto
  next
    case False
    show ?thesis
    proof (cases "MkdirAll h (tree (fst st)) rel m")
      case (Inl err)
      with False "2.prems" show ?thesis by auto
    next
      case (Inr t1)
      with False "2.prems"
      have "syncEntries h pats rel es ((fst st)\<lparr>tree := Some t1\<rparr>, insert rel (snd st)) = (e, w', V')"
        by simp
      moreover from MkdirAll_wf [OF "2.prems"(2) Inr] have "wf_root (Some t1)"
        by (simp add: wf_root_def)
      ultimately show ?thesis using "2.IH" [OF False Inr] by simp
    qed
  qed
next
  case (3 h pats rel st)
  then show ?case by auto
next
  case (4 h pats rel e0 es st)
  obtain e1 w1 V1 where r1: "syncNode h pats (rel @ [fst e0]) (snd e0) st = (e1, w1, V1)"
    by (metis prod_cases3)
  note IH1 = "4.IH"(1) [OF r1 "4.prems"(2)]
  show ?case
  proof (cases e1)
    case (Some err)
    with r1 "4.prems" have "w' = w1" by auto
    with IH1 show ?thesis by simp
  next
    case None
    with r1 "4.prems" have "syncEntries h pats rel es (w1, V1) = (e, w', V')" by simp
    from "4.IH"(2) [OF r1 [symmetric] None this] IH1 show ?thesis by simp
  qed
qed

text \<open>The walk changes the destination only at and above the paths it records.\<close>

lemma sync_frame:
  "syncNode h pats rel n st = (e, w', V') \<Longrightarrow> \<forall>v \<in> validNode pats rel n. \<not> prefix x v
     \<Longrightarrow> statAttrs (tree w') x = statAttrs (tree (fst st)) x"
  "syncEntries h pats rel es st = (e, w', V') \<Longrightarrow> \<forall>v \<in> validEntries pats rel es. \<not> prefix x v
     \<Longrightarrow> statAttrs (tree w') x = statAttrs (tree (fst st)) x"
proof (induction h pats rel n st and h pats rel es st arbitrary: e w' V' and e w' V'
    rule: syncNode_syncEntries.induct)
  case (1 h pats rel m t d st)
  show ?case
  proof (cases "shouldExclude (Join rel ''/'') pats False")
    case True
    with "1.prems" show ?thesis by auto
  next
    case False
    with "1.prems"(2) have np: "\<not> prefix x rel" by simp
    from False "1.prems"(1) obtain e' where "copyFile h (Some (File m t d)) rel (fst st) = (e', w')"
      by (auto split: prod.splits)
    from copyFile_frame [OF this np] show ?thesis .
  qed
next
  case (2 h pats rel m s t es st)
  show ?case
  proof (cases "shouldExclude (Join rel ''/'') pats True")
    case True
    with "2.prems" show ?thesis by auto
  next
    case False
    with "2.prems"(2) have np: "\<not> prefix x rel"
      and ne: "\<forall>v \<in> validEntries pats rel es. \<not> prefix x v" by simp_all
    show ?thesis
    proof (cases "MkdirAll h (tree (fst st)) rel m")
      case (Inl err)
      with False "2.prems" show ?thesis by auto
    next
      case (Inr t1)
      with False "2.prems"
      have "syncEntries h pats rel es ((fst st)\<lparr>tree := Some t1\<rparr>, insert rel (snd st)) = (e, w', V')"
        by simp
      from "2.IH" [OF False Inr this ne] have "statAttrs (tree w') x = statAttrs (Some t1) x"
        by simp
      also from np have "\<dots> = statAttrs (tree (fst st)) x"
        by (simp add: MkdirAll_statAttrs [OF Inr])
      finally show ?thesis .
    qed
  qed
next
  case (3 h pats rel st)
  then show ?case by auto
next
  case (4 h pats rel e0 es st)
  obtain e1 w1 V1 where r1: "syncNode h pats (rel @ [fst e0]) (snd e0) st = (e1, w1, V1)"
    by (metis prod_cases3)
  from "4.prems"(2) have n1: "\<forall>v \<in> validNode pats (rel @ [fst e0]) (snd e0). \<not> prefix x v"
    and n2: "\<forall>v \<in> validEntries pats rel es. \<not> prefix x v" by simp_all
  note IH1 = "4.IH"(1) [OF r1 n1]
  show ?case
  proof (cases e1)
    case (Some err)
    with r1 "4.prems" have "w' = w1" by auto
    with IH1 show ?thesis by simp
  next
    case None
    with r1 "4.prems" have "syncEntries h pats rel es (w1, V1) = (e, w', V')" by simp
    from "4.IH"(2) [OF r1 [symmetric] None this n2] IH1 show ?thesis by simp
  qed
qed

text \<open>The walk leaves every directory of the destination a directory, as it is.\<close>

lemma sync_keeps_dirs:
  "syncNode h pats rel n st = (e, w', V') \<Longrightarrow> statAttrs (tree (fst st)) x = Some (Dir a b c [])
     \<Longrightarrow> statAttrs (tree w') x = Some (Dir a b c [])"
  "syncEntries h pats rel es st = (e, w', V') \<Longrightarrow> statAttrs (tree (fst st)) x = Some (Dir a b c [])
     \<Longrightarrow> statAttrs (tree w') x = Some (Dir a b c [])"
proof (induction h pats rel n st and h pats rel es st arbitrary: e w' V' and e w' V'
    rule: syncNode_syncEntries.induct)
  case (1 h pats rel m t d st)
  show ?case
  proof (cases "shouldExclude (Join rel ''/'') pats False")
    case True
    with "1.prems" show ?thesis by auto
  next
    case False
    with "1.prems"(1) obtain e' where "copyFile h (Some (File m t d)) rel (fst st) = (e', w')"
      by (auto split: prod.splits)
    from copyFile_keeps_dirs [OF this "1.prems"(2)] show ?thesis .
  qed
next
  case (2 h pats rel m s t es st)
  show ?case
  proof (cases "shouldExclude (Join rel ''/'') pats True")
    case True
    with "2.prems" show ?thesis by auto
  next
    case False
    show ?thesis
    proof (cases "MkdirAll h (tree (fst st)) rel m")
      case (Inl err)
      with False "2.prems" show ?thesis by auto
    next
      case (Inr t1)
      with False "2.prems"
      have r: "syncEntries h pats rel es ((fst st)\<lparr>tree := Some t1\<rparr>, insert rel (snd st)) = (e, w', V')"
        by simp
      from "2.prems"(2) obtain y where "Stat (tree (fst st)) x = Some y"
        by (auto simp: statAttrs_def)
      then have "statAttrs (Some t1) x = statAttrs (tree (fst st)) x"
        by (simp add: MkdirAll_statAttrs [OF Inr])
      with "2.prems"(2) have "statAttrs (Some t1) x = Some (Dir a b c [])" by simp
      with "2.IH" [OF False Inr r] show ?thesis by simp
    qed
  qed
next
  case (3 h pats rel st)
  then show ?case by auto
next
  case (4 h pats rel e0 es st)
  obtain e1 w1 V1 where r1: "syncNode h pats (rel @ [fst e0]) (snd e0) st = (e1, w1, V1)"
    by (metis prod_cases3)
  note IH1 = "4.IH"(1) [OF r1 "4.prems"(2)]
  show ?case
  proof (cases e1)
    case (Some err)
    with r1 "4.prems" have "w' = w1" by auto
    with IH1 show ?thesis by simp
  next
    case None
    with r1 "4.prems" have "syncEntries h pats rel es (w1, V1) = (e, w', V')" by simp
    from "4.IH"(2) [OF r1 [symmetric] None this] IH1 show ?thesis by simp
  qed
qed

lemma forwardPhase_closed:
  assumes "forwardPhase h src pats w = (None, w1, V)" and "v \<in> V" and "prefix q v" and "q \<noteq> []"
  shows "q \<in> V"
proof (cases src)
  case (File m t d)
  with assms show ?thesis by (simp add: forwardPhase_def)
next
  case (Dir m s t es)
  with assms(1) have "syncEntries h pats [] es (w, {}) = (None, w1, V)"
    by (simp add: forwardPhase_def)
  from sync_valid(2) [OF this] have V: "V = validEntries pats [] es" by simp
  from assms(4) have "strict_prefix [] q" by (cases q) auto
  from valid_closed(2) [OF _ assms(3) this] assms(2) V show ?thesis by simp
qed

lemma forwardPhase_wf:
  assumes "forwardPhase h src pats w = (e, w1, V)" and "wf_root (tree w)"
  shows "wf_root (tree w1)"
proof (cases src)
  case (File m t d)
  with assms show ?thesis by (simp add: forwardPhase_def)
next
  case (Dir m s t es)
  with assms(1) have "syncEntries h pats [] es (w, {}) = (e, w1, V)"
    by (simp add: forwardPhase_def)
  from sync_wf(2) [OF this] assms(2) show ?thesis by simp
qed

lemma sync_after_forward:
  assumes "forwardPhase h src pats w = (None, w1, V)" and "wf_root (tree w)"
  shows "\<exists>w2. sync h src pats w = (None, w2) \<and> cleanOrphans V w1 = (None, w2)
      \<and> copied w2 = copied w1 \<and> wf_root (tree w2)
      \<and> (\<forall>x. x \<noteq> [] \<longrightarrow> x \<notin> V \<longrightarrow> Stat (tree w2) x = None)
      \<and> (\<forall>x \<in> V. statAttrs (tree w2) x = statAttrs (tree w1) x)
      \<and> statAttrs (tree w2) [] = statAttrs (tree w1) []"
proof -
  from forwardPhase_wf [OF assms] have wf1: "wf_root (tree w1)" .
  from cleanOrphans_ok [OF wf1, of V] forwardPhase_closed [OF assms(1)]
  obtain w2 where w2: "cleanOrphans V w1 = (None, w2)" "copied w2 = copied w1"
    "wf_root (tree w2)" "\<forall>x. x \<noteq> [] \<longrightarrow> x \<notin> V \<longrightarrow> Stat (tree w2) x = None"
    "\<forall>x \<in> V. statAttrs (tree w2) x = statAttrs (tree w1) x"
    "statAttrs (tree w2) [] = statAttrs (tree w1) []" by blast
  from assms(1) w2(1) have "sync h src pats w = (None, w2)" by (simp add: sync_def)
  with w2 show ?thesis by blast
qed

subsection \<open>Settled entries\<close>

text \<open>Being settled depends only on what lies at the recorded paths.\<close>

lemma settled_cong:
  "\<forall>v \<in> validNode pats rel n. statAttrs r v = statAttrs r' v
     \<Longrightarrow> settledNode pats rel n r = settledNode pats rel n r'"
  "\<forall>v \<in> validEntries pats rel es. statAttrs r v = statAttrs r' v
     \<Longrightarrow> settledEntries pats rel es r = settledEntries pats rel es r'"
proof (induction pats rel n and pats rel es rule: validNode_validEntries.induct)
  case (1 pats rel m t d)
  then show ?case by auto
next
  case (2 pats rel m s t es)
  then show ?case by auto
next
  case (3 pats rel)
  show ?case by simp
next
  case (4 pats rel e es)
  then show ?case by auto
qed

text \<open>A run over settled entries changes nothing and copies nothing.\<close>

lemma sync_settled_idle:
  "wf_root (tree (fst st)) \<Longrightarrow> settledNode pats rel n (tree (fst st))
     \<Longrightarrow> syncNode h pats rel n st = (None, fst st, snd st \<union> validNode pats rel n)"
  "wf_root (tree (fst st)) \<Longrightarrow> settledEntries pats rel es (tree (fst st))
     \<Longrightarrow> syncEntries h pats rel es st = (None, fst st, snd st \<union> validEntries pats rel es)"
proof (induction h pats rel n st and h pats rel es st rule: syncNode_syncEntries.induct)
  case (1 h pats rel m t d st)
  show ?case
  proof (cases "shouldExclude (Join rel ''/'') pats False")
    case True
    then show ?thesis by simp
  next
    case False
    with "1.prems"(2) obtain x where x: "statAttrs (tree (fst st)) rel = Some x"
      "Size x = length d" "ModTime x = t" by (auto split: option.splits)
    from x(1) obtain y where y: "Stat (tree (fst st)) rel = Some y" "x = attrs y"
      by (auto simp: statAttrs_def)
    from x(2,3) y(2) have "Size y = Size (File m t d)" "ModTime y = ModTime (File m t d)"
      by simp_all
    from copyFile_skip [OF "1.prems"(1) y(1) this]
    have "copyFile h (Some (File m t d)) rel (fst st) = (None, fst st)" .
    with False show ?thesis by simp
  qed
next
  case (2 h pats rel m s t es st)
  show ?case
  proof (cases "shouldExclude (Join rel ''/'') pats True")
    case True
    then show ?thesis by simp
  next
    case False
    with "2.prems"(2) obtain x where x: "statAttrs (tree (fst st)) rel = Some x" "IsDir x"
      and se: "settledEntries pats rel es (tree (fst st))" by (auto split: option.splits)
    from x(1) obtain y where y: "Stat (tree (fst st)) rel = Some y" "x = attrs y"
      by (auto simp: statAttrs_def)
    from x(2) y(2) have "IsDir y" by simp
    from MkdirAll_existing [OF "2.prems"(1) y(1) this, of h m]
    obtain b where b: "tree (fst st) = Some b" "MkdirAll h (tree (fst st)) rel m = Inr b"
      by blast
    from b(1) have same: "(fst st)\<lparr>tree := Some b\<rparr> = fst st" by (metis world_tree_same)
    from "2.IH" [OF False b(2)] "2.prems"(1) se same
    have "syncEntries h pats rel es (fst st, insert rel (snd st))
        = (None, fst st, insert rel (snd st) \<union> validEntries pats rel es)" by simp
    with False b(2) same show ?thesis by simp
  qed
next
  case (3 h pats rel st)
  show ?case by simp
next
  case (4 h pats rel e es st)
  from "4.prems"(2) have s1: "settledNode pats (rel @ [fst e]) (snd e) (tree (fst st))"
    and s2: "settledEntries pats rel es (tree (fst st))" by simp_all
  from "4.IH"(1) [OF "4.prems"(1) s1]
  have r1: "syncNode h pats (rel @ [fst e]) (snd e) st
      = (None, fst st, snd st \<union> validNode pats (rel @ [fst e]) (snd e))" .
  from "4.IH"(2) [OF r1 [symmetric] refl] "4.prems"(1) s2
  have "syncEntries h pats rel es (fst st, snd st \<union> validNode pats (rel @ [fst e]) (snd e))
      = (None, fst st,
         (snd st \<union> validNode pats (rel @ [fst e]) (snd e)) \<union> validEntries pats rel es)"
    by simp
  with r1 show ?case by (simp add: Un_assoc)
qed

text \<open>Processing the other entries of a directory leaves a settled entry settled.\<close>

lemma settled_stable:
  assumes "syncEntries h pats rel es st = (e, w', V')" and "k \<notin> fst ` set es"
  shows "settledNode pats (rel @ [k]) n (tree w') = settledNode pats (rel @ [k]) n (tree (fst st))"
proof (rule settled_cong(1), rule ballI)
  fix v
  assume "v \<in> validNode pats (rel @ [k]) n"
  from valid_form(1) [OF this] obtain q where v: "v = rel @ k # q" by (auto simp: prefix_def)
  have "\<forall>u \<in> validEntries pats rel es. \<not> prefix v u"
  proof
    fix u
    assume "u \<in> validEntries pats rel es"
    from valid_form(2) [OF this] obtain k' q' where u: "u = rel @ k' # q'" "k' \<in> fst ` set es"
      by blast
    with assms(2) have "k' \<noteq> k" by auto
    with u(1) v show "\<not> prefix v u" by simp
  qed
  from sync_frame(2) [OF assms(1) this] show "statAttrs (tree w') v = statAttrs (tree (fst st)) v" .
qed

text \<open>A walk that completes leaves every entry it went over settled.\<close>

lemma sync_settles:
  "syncNode h pats rel n st = (None, w', V') \<Longrightarrow> wf_node n \<Longrightarrow> settledNode pats rel n (tree w')"
  "syncEntries h pats rel es st = (None, w', V') \<Longrightarrow> sorted_wrt (<) (map fst es)
     \<Longrightarrow> wf_entries es \<Longrightarrow> settledEntries pats rel es (tree w')"
proof (induction h pats rel n st and h pats rel es st arbitrary: w' V' and w' V'
    rule: syncNode_syncEntries.induct)
  case (1 h pats rel m t d st)
  show ?case
  proof (cases "shouldExclude (Join rel ''/'') pats False")
    case True
    then show ?thesis by simp
  next
    case False
    with "1.prems"(1) have "copyFile h (Some (File m t d)) rel (fst st) = (None, w')"
      by (auto split: prod.splits)
    from copyFile_settles [OF this] False show ?thesis by auto
  qed
next
  case (2 h pats rel m s t es st)
  show ?case
  proof (cases "shouldExclude (Join rel ''/'') pats True")
    case True
    then show ?thesis by simp
  next
    case False
    show ?thesis
    proof (cases "MkdirAll h (tree (fst st)) rel m")
      case (Inl err)
      with False "2.prems" show ?thesis by simp
    next
      case (Inr t1)
      with False "2.prems"(1)
      have r: "syncEntries h pats rel es ((fst st)\<lparr>tree := Some t1\<rparr>, insert rel (snd st))
          = (None, w', V')" by simp
      from "2.prems"(2) have wf: "sorted_wrt (<) (map fst es)" "wf_entries es" by simp_all
      from MkdirAll_result_Dir [OF Inr] obtain a b c es' where
        "Stat (Some t1) rel = Some (Dir a b c es')" by blast
      then have "statAttrs (tree (fst ((fst st)\<lparr>tree := Some t1\<rparr>, insert rel (snd st)))) rel
          = Some (Dir a b c [])" by (simp add: statAttrs_def)
      from sync_keeps_dirs(2) [OF r this] have "statAttrs (tree w') rel = Some (Dir a b c [])" .
      with "2.IH" [OF False Inr r wf] False show ?thesis by simp
    qed
  qed
next
  case (3 h pats rel st)
  show ?case by simp
next
  case (4 h pats rel e es st)
  obtain e1 w1 V1 where r1: "syncNode h pats (rel @ [fst e]) (snd e) st = (e1, w1, V1)"
    by (metis prod_cases3)
  from "4.prems"(2,3) have wf: "wf_node (snd e)" "sorted_wrt (<) (map fst es)" "wf_entries es"
    and fresh: "fst e \<notin> fst ` set es" by auto
  show ?case
  proof (cases e1)
    case (Some err)
    with r1 "4.prems"(1) show ?thesis by simp
  next
    case None
    with r1 "4.prems"(1) have r2: "syncEntries h pats rel es (w1, V1) = (None, w', V')" by simp
    from "4.IH"(1) [OF _ wf(1)] r1 None
    have "settledNode pats (rel @ [fst e]) (snd e) (tree w1)" by simp
    with settled_stable [OF r2 fresh]
    have "settledNode pats (rel @ [fst e]) (snd e) (tree w')" by simp
    moreover from "4.IH"(2) [OF r1 [symmetric] None r2 wf(2,3)]
    have "settledEntries pats rel es (tree w')" .
    ultimately show ?thesis by simp
  qed
qed

subsection \<open>The example\<close>

lemma exForward: "forwardPhase exHost exSrc exPatterns exDest = (None, exMid, exValid)"
  by code_simp

lemma exClean: "cleanOrphans exValid exMid = (None, exAfter)"
  by code_simp

lemma exSync: "sync exHost exSrc exPatterns exDest = (None, exAfter)"
  by (simp add: sync_def exForward exClean)

lemma exWf: "wf_node exSrc" "wf_root (tree exDest)"
  by code_simp+

section \<open>Claims about the pattern matcher\<close>

text \<open>
  Claim C4.  For every relative path \<open>P\<close> and every pattern ending in a path separator
  (a directory-only pattern such as \<open>name/\<close>), \<open>matchPattern P pattern False\<close> is
  false, whatever the components or the base name of \<open>P\<close> are.
\<close>

theorem C4_dir_only_pattern_never_matches_file:
  assumes "HasSuffix pattern ''/''"
  shows "matchPattern P pattern False = False"
  using assms by (simp add: matchPattern_def ToSlash_def Let_def)

theorem C4_dir_only_pattern_never_matches_file_witness:
  "HasSuffix ''node_modules/'' ''/''
   \<and> matchPattern ''node_modules'' ''node_modules/'' False = False
   \<and> matchPattern ''node_modules'' ''node_modules/'' True = True"
proof -
  have h: "HasSuffix ''node_modules/'' ''/''" by (simp add: HasSuffix_def)
  have t: "matchPattern ''node_modules'' ''node_modules/'' True = True" by code_simp
  from h t C4_dir_only_pattern_never_matches_file [OF h, of "''node_modules''"]
  show ?thesis by simp
qed

text \<open>
  Claim C5 as stated: for every pattern beginning with \<open>**/\<close>, \<open>matchPattern\<close> is true
  if and only if the stripped suffix satisfies the double-star rule.  It fails for a
  pattern that also ends in a separator.  For \<open>**/test/\<close> and the path \<open>test\<close>: with
  the suffix taken as the pattern less its prefix (\<open>test/\<close>) the code matches a
  directory although the rule does not hold; with the suffix taken as \<open>test\<close> the rule
  holds although the code does not match a file.
\<close>

theorem C5_double_star_counterexample:
  "HasPrefix ''**/test/'' ''**/''
   \<and> matchPattern ''test'' ''**/test/'' True
   \<and> \<not> doubleStarRule (TrimPrefix ''**/test/'' ''**/'') ''test''
   \<and> \<not> matchPattern ''test'' ''**/test/'' False
   \<and> doubleStarRule (TrimPrefix (TrimSuffix ''**/test/'' ''/'') ''**/'') ''test''"
  by code_simp

text \<open>
  Claim C5, amended.  For every relative path and every pattern that begins with
  \<open>**/\<close> once a trailing separator is removed: \<open>matchPattern\<close> is true if and only if
  the pattern has no trailing separator or the entry is a directory, and the rest of the
  pattern after \<open>**/\<close> glob-matches some joined component suffix \<open>parts[i:]\<close> of the
  path or some single component.  In particular \<open>**/test\<close> matches both \<open>test\<close> and
  \<open>a/b/test\<close>.
\<close>

theorem C5_double_star_prefix:
  "(HasPrefix (TrimSuffix pattern ''/'') ''**/'' \<longrightarrow>
      matchPattern relPath pattern isDir =
        ((HasSuffix pattern ''/'' \<longrightarrow> isDir)
         \<and> doubleStarRule (TrimPrefix (TrimSuffix pattern ''/'') ''**/'') relPath))
   \<and> matchPattern ''test'' ''**/test'' isDir
   \<and> matchPattern ''a/b/test'' ''**/test'' isDir"
proof (intro conjI impI)
  assume "HasPrefix (TrimSuffix pattern ''/'') ''**/''"
  then show "matchPattern relPath pattern isDir =
        ((HasSuffix pattern ''/'' \<longrightarrow> isDir)
         \<and> doubleStarRule (TrimPrefix (TrimSuffix pattern ''/'') ''**/'') relPath)"
    by (simp add: matchPattern_unfold doubleStarRule_iff)
next
  have "matchPattern ''test'' ''**/test'' True" "matchPattern ''test'' ''**/test'' False"
    by code_simp+
  then show "matchPattern ''test'' ''**/test'' isDir" by (cases isDir) simp_all
next
  have "matchPattern ''a/b/test'' ''**/test'' True" "matchPattern ''a/b/test'' ''**/test'' False"
    by code_simp+
  then show "matchPattern ''a/b/test'' ''**/test'' isDir" by (cases isDir) simp_all
qed

theorem C5_double_star_prefix_witness:
  "HasPrefix (TrimSuffix ''**/build/'' ''/'') ''**/''
   \<and> matchPattern ''src/build'' ''**/build/'' True
   \<and> doubleStarRule ''build'' ''src/build''
   \<and> \<not> matchPattern ''src/build'' ''**/build/'' False"
proof -
  have h: "HasPrefix (TrimSuffix ''**/build/'' ''/'') ''**/''" by code_simp
  have s: "HasSuffix ''**/build/'' ''/''" by code_simp
  have e: "TrimPrefix (TrimSuffix ''**/build/'' ''/'') ''**/'' = ''build''" by code_simp
  have d: "doubleStarRule ''build'' ''src/build''" by code_simp
  from C5_double_star_prefix [of "''**/build/''" "''src/build''" True]
    C5_double_star_prefix [of "''**/build/''" "''src/build''" False] h s d
  show ?thesis by (simp only: e simp_thms)
qed

text \<open>
  Claim C6 as stated: every pattern that contains a separator and does not begin with
  \<open>**/\<close> matches only the entire relative path.  It fails for a pattern whose only
  separator is the trailing one: \<open>node_modules/\<close> matches the directory
  \<open>src/node_modules\<close> (as the repository's own test table expects), although neither
  the pattern nor the pattern less its trailing separator glob-matches that whole path.
\<close>

theorem C6_rooted_counterexample:
  "Contains ''node_modules/'' ''/''
   \<and> \<not> HasPrefix ''node_modules/'' ''**/''
   \<and> matchPattern ''src/node_modules'' ''node_modules/'' True
   \<and> \<not> rootedRule ''node_modules/'' ''src/node_modules''
   \<and> \<not> rootedRule ''node_modules'' ''src/node_modules''"
  by code_simp

text \<open>
  Claim C6, amended.  For every pattern that, once a trailing separator is removed,
  still contains a separator and does not begin with \<open>**/\<close>: \<open>matchPattern\<close> is true
  only when (indeed exactly when, for a directory or a pattern without trailing
  separator) the pattern, less the trailing separator and one optional leading
  separator, glob-matches the entire relative path.  A match against a proper nested
  sub-path is false: \<open>build/output\<close> does not match \<open>src/build/output\<close>.
\<close>

theorem C6_rooted_pattern:
  "(Contains (TrimSuffix pattern ''/'') ''/''
      \<and> \<not> HasPrefix (TrimSuffix pattern ''/'') ''**/'' \<longrightarrow>
      matchPattern relPath pattern isDir =
        ((HasSuffix pattern ''/'' \<longrightarrow> isDir) \<and> rootedRule (TrimSuffix pattern ''/'') relPath))
   \<and> \<not> matchPattern ''src/build/output'' ''build/output'' isDir"
proof (intro conjI impI)
  assume "Contains (TrimSuffix pattern ''/'') ''/''
      \<and> \<not> HasPrefix (TrimSuffix pattern ''/'') ''**/''"
  then show "matchPattern relPath pattern isDir =
        ((HasSuffix pattern ''/'' \<longrightarrow> isDir) \<and> rootedRule (TrimSuffix pattern ''/'') relPath)"
    by (simp add: matchPattern_unfold rootedRule_def)
next
  have "\<not> matchPattern ''src/build/output'' ''build/output'' True"
    "\<not> matchPattern ''src/build/output'' ''build/output'' False"
    by code_simp+
  then show "\<not> matchPattern ''src/build/output'' ''build/output'' isDir"
    by (cases isDir) simp_all
qed

theorem C6_rooted_pattern_witness:
  "Contains (TrimSuffix ''build/output'' ''/'') ''/''
   \<and> \<not> HasPrefix (TrimSuffix ''build/output'' ''/'') ''**/''
   \<and> matchPattern ''build/output'' ''build/output'' True
   \<and> rootedRule ''build/output'' ''build/output''"
proof -
  have h: "Contains (TrimSuffix ''build/output'' ''/'') ''/''"
    "\<not> HasPrefix (TrimSuffix ''build/output'' ''/'') ''**/''" by code_simp+
  have s: "\<not> HasSuffix ''build/output'' ''/''" by code_simp
  have e: "TrimSuffix ''build/output'' ''/'' = ''build/output''" by code_simp
  have d: "rootedRule ''build/output'' ''build/output''" by code_simp
  from C6_rooted_pattern [of "''build/output''" "''build/output''" True] h s d
  show ?thesis by (simp only: e simp_thms)
qed

text \<open>
  Claim C7.  For every pattern containing no path separator, matching is
  depth-independent: for every relative path \<open>P\<close> (a path that is not empty and does
  not start at the root) and every sequence of leading directory components \<open>ds\<close>, if
  \<open>matchPattern P pattern isDir\<close> is true then so is
  \<open>matchPattern (d1/.../dk/P) pattern isDir\<close>.
\<close>

theorem C7_depth_independent:
  assumes "\<not> Contains pattern ''/''" and "relativePath P"
    and "matchPattern P pattern isDir"
  shows "matchPattern (prefixDirs ds P) pattern isDir"
proof -
  from assms(1) have ns: "\<not> HasSuffix pattern ''/''" and np: "\<not> HasPrefix pattern ''**/''"
    using HasSuffix_Contains HasPrefix_Contains_slash by blast+
  have eq: "\<And>Q. matchPattern Q pattern isDir =
      (matched (Match pattern (Base Q)) \<or> matchAnyPart pattern (Split Q CHR ''/''))"
    using assms(1) ns np by (simp add: matchPattern_def ToSlash_def Let_def)
  from assms(3) have "matched (Match pattern (Base P)) \<or> matchAnyPart pattern (Split P CHR ''/'')"
    by (simp only: eq)
  then have "\<exists>part \<in> set (Split P CHR ''/''). matched (Match pattern part)"
    using Base_in_Split [OF assms(2)] by (auto simp: matchAnyPart_iff)
  then have "\<exists>part \<in> set (Split (prefixDirs ds P) CHR ''/''). matched (Match pattern part)"
    using Split_prefixDirs [of P ds] by blast
  then show ?thesis by (simp add: eq matchAnyPart_iff)
qed

theorem C7_depth_independent_witness:
  "\<not> Contains ''*.log'' ''/'' \<and> relativePath ''foo.log''
   \<and> matchPattern ''foo.log'' ''*.log'' False
   \<and> prefixDirs [''src'', ''app''] ''foo.log'' = ''src/app/foo.log''
   \<and> matchPattern ''src/app/foo.log'' ''*.log'' False"
proof -
  have h: "\<not> Contains ''*.log'' ''/''" "relativePath ''foo.log''"
    "matchPattern ''foo.log'' ''*.log'' False" by code_simp+
  have e: "prefixDirs [''src'', ''app''] ''foo.log'' = ''src/app/foo.log''" by code_simp
  from C7_depth_independent [OF h, of "[''src'', ''app'']"] h e
  show ?thesis by (simp only: simp_thms)
qed

text \<open>
  The empty string, which is no path and which \<open>filepath.Rel\<close> never returns, is the
  reason for the side condition of C7: its base name is \<open>"."\<close>, which is none of its
  components.
\<close>

lemma matchPattern_empty_string:
  "matchPattern [] ''.'' False \<and> \<not> matchPattern (prefixDirs [''d''] []) ''.'' False"
  by code_simp

text \<open>
  Claim C9.  \<open>matchPattern\<close> always returns a boolean and never propagates a
  glob-syntax error: a pattern whose glob is invalid, so that \<open>filepath.Match\<close>
  reports an error for it on every name (for example the unclosed class \<open>[\<close>), is
  treated as matching nothing; \<open>shouldExclude\<close> over a list containing such a pattern
  still returns a result, the one it returns without that pattern, so the malformed
  pattern never excludes any path.
\<close>

theorem C9_bad_glob_matches_nothing:
  assumes "\<forall>name. \<exists>e. Match (globOf pattern) name = Inl e"
  shows "\<not> matchPattern relPath pattern isDir
    \<and> shouldExclude relPath (ps @ pattern # qs) isDir = shouldExclude relPath (ps @ qs) isDir"
proof -
  from assms have nm: "\<And>name. \<not> matched (Match (globOf pattern) name)"
    by (metis matched_def sum.case(1))
  have g: "\<not> matchPattern Q pattern isDir" for Q
  proof -
    let ?p = "TrimSuffix pattern ''/''"
    show ?thesis
    proof (cases "HasPrefix ?p ''**/''")
      case True
      then have "globOf pattern = TrimPrefix ?p ''**/''"
        by (simp add: globOf_def ToSlash_def)
      with nm have "\<And>name. \<not> matched (Match (TrimPrefix ?p ''**/'') name)" by simp
      with True show ?thesis
        by (simp add: matchPattern_unfold matchAnySuffix_iff del: Join.simps)
    next
      case False
      note np = False
      show ?thesis
      proof (cases "Contains ?p ''/''")
        case True
        with np have "globOf pattern = TrimPrefix ?p ''/''"
          by (simp add: globOf_def ToSlash_def)
        with nm have "\<And>name. \<not> matched (Match (TrimPrefix ?p ''/'') name)" by simp
        with np True show ?thesis by (simp add: matchPattern_unfold)
      next
        case False
        with np have "globOf pattern = ?p"
          by (simp add: globOf_def ToSlash_def)
        with nm have "\<And>name. \<not> matched (Match ?p name)" by simp
        with np False show ?thesis by (simp add: matchPattern_unfold matchAnyPart_iff)
      qed
    qed
  qed
  have "shouldExclude relPath (ps @ pattern # qs) isDir = shouldExclude relPath (ps @ qs) isDir"
    by (induction ps) (simp_all add: g)
  with g show ?thesis by simp
qed

theorem C9_bad_glob_matches_nothing_witness:
  "(\<forall>name. \<exists>e. Match (globOf ''['') name = Inl e)
   \<and> \<not> matchPattern ''src/main.go'' ''['' False
   \<and> shouldExclude ''debug.log'' [''['', ''*.log''] False"
proof -
  have e: "globOf ''['' = ''[''" by code_simp
  have h: "\<forall>name. \<exists>e. Match (globOf ''['') name = Inl e"
    by (simp add: e Match_open_bracket del: Match.simps)
  have s: "shouldExclude ''debug.log'' [''*.log''] False" by code_simp
  from C9_bad_glob_matches_nothing [OF h, of "''src/main.go''" False "[]" "[''*.log'']"]
    C9_bad_glob_matches_nothing [OF h, of "''debug.log''" False "[]" "[''*.log'']"] h s
  show ?thesis by simp
qed

section \<open>Claims about the synchronisation\<close>

text \<open>
  Claim C1.  For every source tree, destination tree and pattern list: if the relative
  path of a source directory is excluded by \<open>shouldExclude\<close>, then \<open>sync\<close> records
  nothing at or under that directory in the valid-path set and the forward phase
  creates or changes nothing at or under the corresponding destination path; after a
  run that succeeds, nothing at or under that path exists in the destination, even
  when the nested file's own relative path matches no pattern.
\<close>

theorem C1_excluded_directory_pruned:
  assumes "wf_node src" and "wf_root (tree w)"
    and "Stat (Some src) d = Some x" and "IsDir x" and "d \<noteq> []"
    and "shouldExclude (Join d ''/'') patterns True"
    and "prefix d p"
    and "forwardPhase h src patterns w = (e, w1, validPaths)"
  shows "p \<notin> validPaths
    \<and> statAttrs (tree w1) p = statAttrs (tree w) p
    \<and> (e = None \<longrightarrow> (\<exists>w2. sync h src patterns w = (None, w2) \<and> Stat (tree w2) p = None))"
proof (cases src)
  case (File m t d')
  with assms(3,5) show ?thesis by (cases d) auto
next
  case (Dir m s t es)
  with assms(8) have run: "syncEntries h patterns [] es (w, {}) = (e, w1, validPaths)"
    by (simp add: forwardPhase_def)
  from assms(1) Dir have wf: "sorted_wrt (<) (map fst es)" "wf_entries es" by simp_all
  have under: "\<not> prefix d v" if v: "v \<in> validEntries patterns [] es" for v
  proof
    assume pd: "prefix d v"
    from valid_form(2) [OF v] obtain k q where kq: "v = k # q" by auto
    with pd assms(5) obtain q' where q': "d = k # q'" "prefix q' q" by (cases d) auto
    from v kq have "[] @ k # q \<in> validEntries patterns [] es" by simp
    from valid_not_excluded(2) [OF this wf q'(2)]
    obtain y where y: "Stat (map_of es k) q' = Some y"
      "\<not> shouldExclude (Join (k # q') ''/'') patterns (IsDir y)" by auto
    from y(1) assms(3) Dir q'(1) have "y = x" by simp
    with y(2) assms(4,6) q'(1) show False by simp
  qed
  from sync_valid(2) [OF run] have sub: "validPaths \<subseteq> validEntries patterns [] es" by simp
  have a: "p \<notin> validPaths"
  proof
    assume "p \<in> validPaths"
    with sub have "p \<in> validEntries patterns [] es" by blast
    from under [OF this] assms(7) show False by simp
  qed
  have "\<forall>v \<in> validEntries patterns [] es. \<not> prefix p v"
  proof
    fix v
    assume "v \<in> validEntries patterns [] es"
    from under [OF this] assms(7) show "\<not> prefix p v"
      by (metis prefix_order.trans)
  qed
  from sync_frame(2) [OF run this] have b: "statAttrs (tree w1) p = statAttrs (tree w) p"
    by simp
  have c: "e = None \<longrightarrow> (\<exists>w2. sync h src patterns w = (None, w2) \<and> Stat (tree w2) p = None)"
  proof
    assume "e = None"
    with assms(8) have "forwardPhase h src patterns w = (None, w1, validPaths)" by simp
    from sync_after_forward [OF this assms(2)] obtain w2 where
      w2: "sync h src patterns w = (None, w2)"
      "\<forall>x. x \<noteq> [] \<longrightarrow> x \<notin> validPaths \<longrightarrow> Stat (tree w2) x = None" by blast
    from assms(5,7) have "p \<noteq> []" by auto
    with w2 a show "\<exists>w2. sync h src patterns w = (None, w2) \<and> Stat (tree w2) p = None"
      by blast
  qed
  from a b c show ?thesis by blast
qed

theorem C1_excluded_directory_pruned_witness:
  "wf_node exSrc \<and> wf_root (tree exDest)
   \<and> Stat (Some exSrc) [''build''] = Some (Dir 493 4096 7 [(''out.bin'', File 420 8 ''bin'')])
   \<and> shouldExclude (Join [''build''] ''/'') exPatterns True
   \<and> \<not> shouldExclude (Join [''build'', ''out.bin''] ''/'') exPatterns False
   \<and> forwardPhase exHost exSrc exPatterns exDest = (None, exMid, exValid)
   \<and> sync exHost exSrc exPatterns exDest = (None, exAfter)
   \<and> [''build'', ''out.bin''] \<notin> exValid
   \<and> statAttrs (tree exMid) [''build'', ''out.bin''] = statAttrs (tree exDest) [''build'', ''out.bin'']
   \<and> Stat (tree exAfter) [''build'', ''out.bin''] = None
   \<and> Stat (tree exAfter) [''build''] = None"
proof -
  have b: "Stat (Some exSrc) [''build''] = Some (Dir 493 4096 7 [(''out.bin'', File 420 8 ''bin'')])"
    by code_simp
  have c: "IsDir (Dir 493 4096 7 [(''out.bin'', File 420 8 ''bin'')])" "[''build''] \<noteq> []"
    by simp_all
  have d: "shouldExclude (Join [''build''] ''/'') exPatterns True"
    "\<not> shouldExclude (Join [''build'', ''out.bin''] ''/'') exPatterns False" by code_simp+
  note th = C1_excluded_directory_pruned [OF exWf b c d(1) _ exForward]
  have p1: "prefix [''build''] [''build'', ''out.bin'']"
    and p2: "prefix [''build''] [''build'']" by simp_all
  from th [OF p1] exSync
  have r1: "[''build'', ''out.bin''] \<notin> exValid"
    "statAttrs (tree exMid) [''build'', ''out.bin''] = statAttrs (tree exDest) [''build'', ''out.bin'']"
    "Stat (tree exAfter) [''build'', ''out.bin''] = None"
    by (auto simp del: Stat.simps)
  from th [OF p2] exSync
  have r2: "Stat (tree exAfter) [''build''] = None"
    by (auto simp del: Stat.simps)
  show ?thesis
    by (intro conjI) (fact exWf b d exForward exSync r1 r2)+
qed

text \<open>
  Claim C2.  For every destination tree and valid-path set produced by a completed
  forward phase: the run then succeeds, and afterwards every destination path other
  than the destination root that is not in the valid-path set no longer exists (an
  orphaned file is removed, an orphaned directory is removed with its whole subtree,
  without error), while what lies at a path of the valid-path set is left as it was.
\<close>

theorem C2_orphans_removed:
  assumes "wf_root (tree w)"
    and "forwardPhase h src patterns w = (None, w1, validPaths)"
  shows "\<exists>w2. sync h src patterns w = (None, w2)
      \<and> cleanOrphans validPaths w1 = (None, w2)
      \<and> (\<forall>p. p \<noteq> [] \<longrightarrow> p \<notin> validPaths \<longrightarrow> Stat (tree w2) p = None)
      \<and> (\<forall>p \<in> validPaths. statAttrs (tree w2) p = statAttrs (tree w1) p)"
  using sync_after_forward [OF assms(2,1)] by blast

theorem C2_orphans_removed_witness:
  "wf_root (tree exDest)
   \<and> forwardPhase exHost exSrc exPatterns exDest = (None, exMid, exValid)
   \<and> sync exHost exSrc exPatterns exDest = (None, exAfter)
   \<and> cleanOrphans exValid exMid = (None, exAfter)
   \<and> Stat (tree exMid) [''old'', ''nested.txt''] = Some (File 420 3 ''orphan'')
   \<and> [''old'', ''nested.txt''] \<notin> exValid \<and> [''file1.txt''] \<in> exValid
   \<and> Stat (tree exAfter) [''old'', ''nested.txt''] = None
   \<and> Stat (tree exAfter) [''old''] = None
   \<and> Stat (tree exAfter) [''orphan.txt''] = None
   \<and> statAttrs (tree exAfter) [''file1.txt''] = statAttrs (tree exMid) [''file1.txt'']"
proof -
  have f: "Stat (tree exMid) [''old'', ''nested.txt''] = Some (File 420 3 ''orphan'')"
    by code_simp
  have g: "[''old'', ''nested.txt''] \<notin> exValid" "[''old''] \<notin> exValid"
    "[''orphan.txt''] \<notin> exValid" "[''file1.txt''] \<in> exValid"
    by code_simp+
  from C2_orphans_removed [OF exWf(2) exForward] exSync
  have w2: "\<forall>p. p \<noteq> [] \<longrightarrow> p \<notin> exValid \<longrightarrow> Stat (tree exAfter) p = None"
    "\<forall>p \<in> exValid. statAttrs (tree exAfter) p = statAttrs (tree exMid) p"
    by (auto simp del: Stat.simps)
  have n: "Stat (tree exAfter) [''old'', ''nested.txt''] = None"
    "Stat (tree exAfter) [''old''] = None"
    "Stat (tree exAfter) [''orphan.txt''] = None"
    by (rule w2(1) [rule_format], simp, fact g)+
  from w2(2) g(4)
  have k: "statAttrs (tree exAfter) [''file1.txt''] = statAttrs (tree exMid) [''file1.txt'']"
    by blast
  show ?thesis
    by (intro conjI) (fact exWf exForward exSync exClean f g n k)+
qed

text \<open>
  Claim C8.  For every source file and destination path: if a file already exists at
  the destination with the size and the modification time of the source, then
  \<open>copyFile\<close> returns success without copying, and the destination, the file's
  content, size and modification time included, is as before the call.  Only size
  and modification time are tested: the contents \<open>d\<close> and \<open>d'\<close> are arbitrary.
\<close>

theorem C8_copyFile_skips_unchanged:
  assumes "wf_root (tree w)"
    and "Stat (tree w) dest = Some (File m' t' d')"
    and "length d' = length d" and "t' = t"
  shows "copyFile h (Some (File m t d)) dest w = (None, w)"
  using assms by (intro copyFile_skip [where x = "File m' t' d'"]) simp_all

theorem C8_copyFile_skips_unchanged_witness:
  "wf_root (tree exDest)
   \<and> Stat (tree exDest) [''build'', ''stale.bin''] = Some (File 420 2 ''old'')
   \<and> length ''old'' = length ''new'' \<and> ''old'' \<noteq> ''new''
   \<and> copyFile exHost (Some (File 384 2 ''new'')) [''build'', ''stale.bin''] exDest = (None, exDest)"
proof -
  have b: "Stat (tree exDest) [''build'', ''stale.bin''] = Some (File 420 2 ''old'')" by code_simp
  have c: "length ''old'' = length ''new''" "''old'' \<noteq> ''new''" by simp_all
  note r = C8_copyFile_skips_unchanged [OF exWf(2) b c(1) refl, of exHost 384]
  show ?thesis
    by (intro conjI) (fact exWf b c r)+
qed

text \<open>
  Claim C10.  After the walk of \<open>cleanOrphans\<close> over the destination, no path on the
  deletion list is a strict descendant of another path on the list, and no path is
  listed twice; every existing path outside the valid-path set lies at or under
  exactly one listed path, so each orphaned subtree is deleted by one recursive
  removal, at its topmost orphaned path.
\<close>

theorem C10_deletion_list_antichain:
  assumes "wf_node root"
  shows "distinct (scanRoot validPaths root)
    \<and> (\<forall>p \<in> set (scanRoot validPaths root). \<forall>q \<in> set (scanRoot validPaths root).
          \<not> strict_prefix p q)
    \<and> (\<forall>x. x \<noteq> [] \<longrightarrow> Stat (Some root) x \<noteq> None \<longrightarrow> x \<notin> validPaths \<longrightarrow>
          (\<exists>!q. q \<in> set (scanRoot validPaths root) \<and> prefix q x))"
proof (cases root)
  case (File m t d)
  have "x = []" if "Stat (Some root) x \<noteq> None" for x
    using that File by (cases x) auto
  with File show ?thesis by auto
next
  case (Dir m s t es)
  let ?L = "scanEntries validPaths [] es"
  from assms Dir have wf: "sorted_wrt (<) (map fst es)" "wf_entries es" by simp_all
  have anti: "\<not> strict_prefix p q" if p: "p \<in> set ?L" and q: "q \<in> set ?L" for p q
  proof
    assume sp: "strict_prefix p q"
    from scan_sound(2) [OF p wf] obtain k r where p': "p = k # r" "p \<notin> validPaths" by auto
    from scan_sound(2) [OF q wf] obtain k' r' where q': "q = k' # r'"
      "\<forall>z. strict_prefix z r' \<longrightarrow> k' # z \<in> validPaths" by auto
    from sp p'(1) q'(1) have "k = k'" "strict_prefix r r'" by auto
    with q'(2) p' show False by simp
  qed
  have uniq: "\<exists>!q. q \<in> set ?L \<and> prefix q x"
    if x: "x \<noteq> []" "Stat (Some root) x \<noteq> None" "x \<notin> validPaths" for x
  proof -
    from top_invalid_prefix [of "[]" x validPaths] x
    obtain k q where kq: "prefix (k # q) x" "k # q \<notin> validPaths"
      "\<forall>q'. strict_prefix q' q \<longrightarrow> k # q' \<in> validPaths" by auto
    from Stat_prefix_exists [OF x(2) kq(1)] Dir
    have "Stat (map_of es k) q \<noteq> None" by simp
    from scan_complete(2) [of es k q "[]" validPaths, OF this] kq(2,3)
    have inL: "k # q \<in> set ?L" by simp
    show ?thesis
    proof (rule ex1I [of _ "k # q"])
      from inL kq(1) show "k # q \<in> set ?L \<and> prefix (k # q) x" by simp
    next
      fix y
      assume y: "y \<in> set ?L \<and> prefix y x"
      with kq(1) have "prefix y (k # q) \<or> prefix (k # q) y"
        by (meson prefix_same_cases)
      with anti [of y "k # q"] anti [of "k # q" y] y inL show "y = k # q"
        by (auto simp: strict_prefix_def)
    qed
  qed
  from scan_distinct(2) [OF wf] anti uniq Dir show ?thesis by simp
qed

theorem C10_deletion_list_antichain_witness:
  "wf_node (the (tree exDest))
   \<and> scanRoot {[''build'']} (the (tree exDest)) = [[''build'', ''stale.bin''], [''old''], [''orphan.txt'']]
   \<and> Stat (tree exDest) [''old'', ''nested.txt''] \<noteq> None
   \<and> distinct (scanRoot {[''build'']} (the (tree exDest)))
   \<and> \<not> strict_prefix [''old''] [''orphan.txt'']"
proof -
  have a: "wf_node (the (tree exDest))" by code_simp
  have b: "scanRoot {[''build'']} (the (tree exDest))
      = [[''build'', ''stale.bin''], [''old''], [''orphan.txt'']]" by code_simp
  have c: "Stat (tree exDest) [''old'', ''nested.txt''] \<noteq> None" by code_simp
  from C10_deletion_list_antichain [OF a, of "{[''build'']}"] a b c show ?thesis by simp
qed

end
